theory Spec2Isabelle
  imports Main "HOL-Library.Word" "HOL-Library.Multiset"
begin

section \<open>The coarse-grained hash set of \<^verbatim>\<open>src/hash_set_coarse_grained.h\<close>\<close>

text \<open>
  The class \<^verbatim>\<open>HashSetCoarseGrained<T>\<close> keeps a vector of buckets
  \<^verbatim>\<open>table_\<close> (each bucket a vector of elements) and the atomic counter
  \<^verbatim>\<open>set_size_\<close>. Every public operation runs under one mutex for its whole
  body, so one operation is one atomic step on the pair of both fields; the model is the
  sequential step function.

  \<^item> \<^verbatim>\<open>std::atomic<size_t> set_size_\<close> is a word, with \<^verbatim>\<open>size_t\<close> taken as 64
    bits wide: \<^verbatim>\<open>fetch_add\<close> and \<^verbatim>\<open>fetch_sub\<close> wrap around.
  \<^item> \<^verbatim>\<open>table_\<close> is a list of lists; \<^verbatim>\<open>table_.size()\<close> is its length, a natural
    number. A vector of vectors has far fewer than \<open>2 ^ 63\<close> entries, so
    \<^verbatim>\<open>table_.size() * 2\<close> does not wrap.
  \<^item> \<^verbatim>\<open>std::hash<T>\<close> is supplied from outside the class: it is the parameter
    \<open>h\<close> of every operation. Equality on \<^verbatim>\<open>T\<close> is HOL equality.
  \<^item> \<^verbatim>\<open>x % table_.size()\<close> and \<^verbatim>\<open>x / table_.size()\<close> with an empty table are
    undefined behaviour in C++; the model returns the error \<open>DivisionByZero\<close> there.
  \<^item> \<open>BadAlloc\<close> and \<open>LengthError\<close> are \<^verbatim>\<open>std::bad_alloc\<close> and
    \<^verbatim>\<open>std::length_error\<close>, the two exceptions a \<^verbatim>\<open>std::vector\<close> throws when it
    cannot get its storage.
\<close>

datatype error = DivisionByZero | BadAlloc | LengthError

type_synonym size_t = "64 word"

record 'a hash_set =
  set_size :: size_t
  table :: "'a list list"

text \<open>\<^verbatim>\<open>const size_t bucket_capacity_ = 4;\<close>\<close>

definition bucket_capacity :: nat where
  "bucket_capacity = 4"

text \<open>
  The allocator. A place of the program that needs new storage makes one request; the
  budget \<open>k\<close> is the number of requests the allocator still grants. \<open>request needed k\<close>
  is the budget left, or \<open>None\<close> when storage is needed and the budget is used up, which
  is where \<^verbatim>\<open>std::bad_alloc\<close> is thrown.
\<close>

definition request :: "bool \<Rightarrow> nat \<Rightarrow> nat option" where
  "request needed k =
     (if \<not> needed then Some k else (case k of 0 \<Rightarrow> None | Suc k' \<Rightarrow> Some k'))"

text \<open>
  The member initialisers \<^verbatim>\<open>set_size_(0), table_(initial_capacity)\<close>: the state of a
  set whose construction has succeeded.
\<close>

definition fresh :: "nat \<Rightarrow> 'a hash_set" where
  "fresh n = \<lparr>set_size = 0, table = replicate n []\<rparr>"

text \<open>
  The constructor \<^verbatim>\<open>HashSetCoarseGrained(size_t initial_capacity)\<close>. Its body is
  empty and it checks nothing itself. What can fail is \<^verbatim>\<open>table_(initial_capacity)\<close>:
  the vector throws \<^verbatim>\<open>std::length_error\<close> when the size is above its
  \<^verbatim>\<open>max_size()\<close>, a constant of the standard library taken as the parameter
  \<open>max_size\<close>, and \<^verbatim>\<open>std::bad_alloc\<close> when the allocator refuses the array of
  buckets. A vector of size 0 requests no storage. The argument is a \<^verbatim>\<open>size_t\<close>.
\<close>

definition New :: "nat \<Rightarrow> nat \<Rightarrow> size_t \<Rightarrow> error + 'a hash_set" where
  "New max_size k initial_capacity =
     (if max_size < unat initial_capacity then Inl LengthError
      else (case request (initial_capacity \<noteq> 0) k of
              None \<Rightarrow> Inl BadAlloc
            | Some k' \<Rightarrow> Inr (fresh (unat initial_capacity))))"

text \<open>\<^verbatim>\<open>Contains_\<close> (named \<open>Contains'\<close> here): look the element up in the bucket its hash selects.\<close>

definition Contains' :: "('a \<Rightarrow> nat) \<Rightarrow> 'a hash_set \<Rightarrow> 'a \<Rightarrow> error + bool" where
  "Contains' h s elem =
     (if length (table s) = 0 then Inl DivisionByZero
      else let bucket_index = h elem mod length (table s);
               bucket = table s ! bucket_index
           in Inr (elem \<in> set bucket))"

text \<open>\<^verbatim>\<open>Policy\<close>: \<^verbatim>\<open>set_size_ / table_.size() > bucket_capacity_\<close>, unsigned division.\<close>

definition Policy :: "'a hash_set \<Rightarrow> error + bool" where
  "Policy s =
     (if length (table s) = 0 then Inl DivisionByZero
      else Inr (unat (set_size s) div length (table s) > bucket_capacity))"

text \<open>
  The body of the inner loop of \<^verbatim>\<open>Resize\<close>:
  \<^verbatim>\<open>new_table[hash(elem) % new_table.size()].push_back(elem)\<close>. It runs only for an
  element of a bucket of the old table, hence only when the old table has a bucket and
  the new table has at least two: the modulus is never zero there.
\<close>

definition rehash_elem :: "('a \<Rightarrow> nat) \<Rightarrow> 'a list list \<Rightarrow> 'a \<Rightarrow> 'a list list" where
  "rehash_elem h new_table elem =
     (let new_bucket_index = h elem mod length new_table
      in new_table[new_bucket_index := new_table ! new_bucket_index @ [elem]])"

text \<open>
  \<^verbatim>\<open>Resize\<close>: a new table of twice the size, filled by the two nested loops over the
  buckets of the old table and the elements of each bucket, then assigned to
  \<^verbatim>\<open>table_\<close>. \<^verbatim>\<open>set_size_\<close> is not written.
\<close>

definition Resize :: "('a \<Rightarrow> nat) \<Rightarrow> 'a hash_set \<Rightarrow> 'a hash_set" where
  "Resize h s =
     (let new_size = length (table s) * 2;
          new_table = foldl (\<lambda>nt bucket. foldl (rehash_elem h) nt bucket)
                        (replicate new_size []) (table s)
      in s\<lparr>table := new_table\<rparr>)"

text \<open>\<^verbatim>\<open>Add\<close>: the result is the returned flag and the state after the call.\<close>

definition Add :: "('a \<Rightarrow> nat) \<Rightarrow> 'a hash_set \<Rightarrow> 'a \<Rightarrow> error + (bool \<times> 'a hash_set)" where
  "Add h s elem =
     (case Contains' h s elem of
        Inl e \<Rightarrow> Inl e
      | Inr present \<Rightarrow>
          if present then Inr (False, s)
          else
            (let bucket_index = h elem mod length (table s);
                 s1 = s\<lparr>table := (table s)[bucket_index := table s ! bucket_index @ [elem]]\<rparr>;
                 s2 = s1\<lparr>set_size := set_size s1 + 1\<rparr>
             in case Policy s2 of
                  Inl e \<Rightarrow> Inl e
                | Inr fire \<Rightarrow> Inr (True, if fire then Resize h s2 else s2)))"

text \<open>
  \<^verbatim>\<open>Remove\<close>: \<^verbatim>\<open>bucket.erase(std::remove(begin, end, elem), end)\<close> deletes every
  occurrence of the element from the bucket.
\<close>

definition Remove :: "('a \<Rightarrow> nat) \<Rightarrow> 'a hash_set \<Rightarrow> 'a \<Rightarrow> error + (bool \<times> 'a hash_set)" where
  "Remove h s elem =
     (case Contains' h s elem of
        Inl e \<Rightarrow> Inl e
      | Inr present \<Rightarrow>
          if \<not> present then Inr (False, s)
          else
            (let bucket_index = h elem mod length (table s);
                 s1 = s\<lparr>table := (table s)[bucket_index := removeAll elem (table s ! bucket_index)]\<rparr>
             in Inr (True, s1\<lparr>set_size := set_size s1 - 1\<rparr>)))"

definition Contains :: "('a \<Rightarrow> nat) \<Rightarrow> 'a hash_set \<Rightarrow> 'a \<Rightarrow> error + bool" where
  "Contains h s elem = Contains' h s elem"

definition Size :: "'a hash_set \<Rightarrow> size_t" where
  "Size s = set_size s"

subsection \<open>Sequences of operations on one thread\<close>

datatype 'a operation = OpAdd 'a | OpRemove 'a | OpContains 'a

fun step :: "('a \<Rightarrow> nat) \<Rightarrow> 'a hash_set \<Rightarrow> 'a operation \<Rightarrow> error + 'a hash_set" where
  "step h s (OpAdd x) = (case Add h s x of Inl e \<Rightarrow> Inl e | Inr (r, s') \<Rightarrow> Inr s')"
| "step h s (OpRemove x) = (case Remove h s x of Inl e \<Rightarrow> Inl e | Inr (r, s') \<Rightarrow> Inr s')"
| "step h s (OpContains x) = (case Contains h s x of Inl e \<Rightarrow> Inl e | Inr r \<Rightarrow> Inr s)"

fun run :: "('a \<Rightarrow> nat) \<Rightarrow> 'a hash_set \<Rightarrow> 'a operation list \<Rightarrow> error + 'a hash_set" where
  "run h s [] = Inr s"
| "run h s (op # ops) = (case step h s op of Inl e \<Rightarrow> Inl e | Inr s' \<Rightarrow> run h s' ops)"

text \<open>
  The operations in order on the set that a successful construction with the given
  capacity returns.
\<close>

definition session :: "('a \<Rightarrow> nat) \<Rightarrow> nat \<Rightarrow> 'a operation list \<Rightarrow> error + 'a hash_set" where
  "session h initial_capacity ops = run h (fresh initial_capacity) ops"

subsection \<open>Observations on a state\<close>

definition capacity :: "'a hash_set \<Rightarrow> nat" where
  "capacity s = length (table s)"

text \<open>The exhaustive scan of all buckets, in order.\<close>

definition elements :: "'a hash_set \<Rightarrow> 'a list" where
  "elements s = concat (table s)"

text \<open>Every element of bucket \<open>i\<close> hashes to \<open>i\<close> modulo the number of buckets.\<close>

definition placed :: "('a \<Rightarrow> nat) \<Rightarrow> 'a list list \<Rightarrow> bool" where
  "placed h t =
     list_all (\<lambda>(i, b). list_all (\<lambda>e. h e mod length t = i) b) (zip [0..<length t] t)"

definition well_placed :: "('a \<Rightarrow> nat) \<Rightarrow> 'a hash_set \<Rightarrow> bool" where
  "well_placed h s = placed h (table s)"

text \<open>
  The net effect of a sequence of operations on one element: a later \<open>OpAdd x\<close> makes it
  present, a later \<open>OpRemove x\<close> makes it absent, anything else leaves it as it was.
\<close>

fun net_effect :: "'a \<Rightarrow> bool \<Rightarrow> 'a operation list \<Rightarrow> bool" where
  "net_effect x p [] = p"
| "net_effect x p (OpAdd y # ops) = net_effect x (p \<or> y = x) ops"
| "net_effect x p (OpRemove y # ops) = net_effect x (p \<and> y \<noteq> x) ops"
| "net_effect x p (OpContains y # ops) = net_effect x p ops"

definition net_present :: "'a \<Rightarrow> 'a operation list \<Rightarrow> bool" where
  "net_present x ops = net_effect x False ops"

text \<open>
  The state inside \<^verbatim>\<open>Add\<close> after \<^verbatim>\<open>push_back\<close> and \<^verbatim>\<open>fetch_add(1)\<close>, before
  the policy is evaluated.
\<close>

definition inserted :: "('a \<Rightarrow> nat) \<Rightarrow> 'a hash_set \<Rightarrow> 'a \<Rightarrow> 'a hash_set" where
  "inserted h s elem =
     (let bucket_index = h elem mod length (table s)
      in s\<lparr>table := (table s)[bucket_index := table s ! bucket_index @ [elem]],
           set_size := set_size s + 1\<rparr>)"

subsection \<open>Resize when an allocation fails\<close>

text \<open>
  \<^verbatim>\<open>Resize\<close> needs storage at these places, in this order; the elements are taken to
  be of a type whose copy needs none, such as \<^verbatim>\<open>int\<close>:
  \<^item> \<^verbatim>\<open>std::vector<std::vector<T>> new_table(new_size)\<close>: the array of buckets, when
    \<^verbatim>\<open>new_size\<close> is not 0; the empty buckets in it have no storage and capacity 0;
  \<^item> \<^verbatim>\<open>for (auto bucket : table_)\<close> copies the bucket: one request when the bucket is
    not empty;
  \<^item> \<^verbatim>\<open>new_table[...].push_back(elem)\<close>: one request when the size of that new bucket
    has reached its capacity, and none otherwise. The capacity a full vector grows to
    is chosen by the standard library; it is the parameter \<open>grow\<close>, a function of the
    old capacity;
  \<^item> \<^verbatim>\<open>table_.clear()\<close>: none, it cannot fail, and it keeps the capacity of
    \<^verbatim>\<open>table_\<close>;
  \<^item> \<^verbatim>\<open>table_ = new_table\<close> is a copy assignment (\<^verbatim>\<open>new_table\<close> is an lvalue):
    one request for the array of buckets when \<^verbatim>\<open>new_table\<close> is longer than the
    capacity of \<^verbatim>\<open>table_\<close>, then one for each bucket of \<^verbatim>\<open>new_table\<close> that is not
    empty. The capacity of \<^verbatim>\<open>table_\<close> is the number of buckets it had: the vector is
    only ever built by the constructor or by this assignment, with exactly its size.

  A request that fails throws \<^verbatim>\<open>std::bad_alloc\<close>. The class has no \<^verbatim>\<open>try\<close>: the
  exception ends \<^verbatim>\<open>Resize\<close> where it is thrown, and the fields keep the values they
  have at that point. \<^verbatim>\<open>table_.clear()\<close> destroys the old buckets before the copy
  assignment starts; when the copy assignment fails, \<^verbatim>\<open>table_\<close> stays as
  \<^verbatim>\<open>clear()\<close> left it: empty.
\<close>

text \<open>
  A bucket of the new table with its capacity. \<^verbatim>\<open>push_back\<close> appends in place while
  there is room and otherwise moves the bucket to new storage of the grown capacity.
\<close>

definition push_back_alloc ::
    "(nat \<Rightarrow> nat) \<Rightarrow> nat \<Rightarrow> nat \<times> 'a list \<Rightarrow> 'a \<Rightarrow> (nat \<times> (nat \<times> 'a list)) option" where
  "push_back_alloc grow k v elem =
     (case v of (cap, es) \<Rightarrow>
        (case request (\<not> length es < cap) k of
           None \<Rightarrow> None
         | Some k' \<Rightarrow> Some (k', (if length es < cap then cap else grow cap, es @ [elem]))))"

text \<open>
  The inner loop over the elements of one bucket: \<open>None\<close> when a \<^verbatim>\<open>push_back\<close> fails,
  otherwise the budget left and the new table.
\<close>

fun push_all ::
    "('a \<Rightarrow> nat) \<Rightarrow> (nat \<Rightarrow> nat) \<Rightarrow> nat \<Rightarrow> (nat \<times> 'a list) list \<Rightarrow> 'a list
     \<Rightarrow> (nat \<times> (nat \<times> 'a list) list) option" where
  "push_all h grow k new_table [] = Some (k, new_table)"
| "push_all h grow k new_table (elem # bucket) =
     (let new_bucket_index = h elem mod length new_table
      in case push_back_alloc grow k (new_table ! new_bucket_index) elem of
           None \<Rightarrow> None
         | Some (k', v) \<Rightarrow> push_all h grow k' (new_table[new_bucket_index := v]) bucket)"

text \<open>The outer loop: the copy of the bucket, then the inner loop on it.\<close>

fun copy_buckets ::
    "('a \<Rightarrow> nat) \<Rightarrow> (nat \<Rightarrow> nat) \<Rightarrow> nat \<Rightarrow> (nat \<times> 'a list) list \<Rightarrow> 'a list list
     \<Rightarrow> (nat \<times> (nat \<times> 'a list) list) option" where
  "copy_buckets h grow k new_table [] = Some (k, new_table)"
| "copy_buckets h grow k new_table (bucket # buckets) =
     (case request (bucket \<noteq> []) k of
        None \<Rightarrow> None
      | Some k' \<Rightarrow>
          (case push_all h grow k' new_table bucket of
             None \<Rightarrow> None
           | Some (k'', new_table') \<Rightarrow> copy_buckets h grow k'' new_table' buckets))"

text \<open>The copies of the buckets made by the copy assignment.\<close>

fun assign_buckets :: "nat \<Rightarrow> 'a list list \<Rightarrow> nat option" where
  "assign_buckets k [] = Some k"
| "assign_buckets k (bucket # buckets) =
     (case request (bucket \<noteq> []) k of
        None \<Rightarrow> None
      | Some k' \<Rightarrow> assign_buckets k' buckets)"

text \<open>
  \<^verbatim>\<open>Resize\<close> under a budget: the exception, if one is thrown, and the fields of the
  object after the call.
\<close>

definition Resize_alloc ::
    "('a \<Rightarrow> nat) \<Rightarrow> (nat \<Rightarrow> nat) \<Rightarrow> nat \<Rightarrow> 'a hash_set \<Rightarrow> error option \<times> 'a hash_set" where
  "Resize_alloc h grow k s =
     (let new_size = length (table s) * 2
      in case request (new_size \<noteq> 0) k of
           None \<Rightarrow> (Some BadAlloc, s)
         | Some k1 \<Rightarrow>
             (case copy_buckets h grow k1 (replicate new_size (0, [])) (table s) of
                None \<Rightarrow> (Some BadAlloc, s)
              | Some (k2, sized_table) \<Rightarrow>
                  (let new_table = map snd sized_table;
                       cleared = s\<lparr>table := []\<rparr>
                   in case request (length (table s) < length new_table) k2 of
                        None \<Rightarrow> (Some BadAlloc, cleared)
                      | Some k3 \<Rightarrow>
                          (case assign_buckets k3 new_table of
                             None \<Rightarrow> (Some BadAlloc, cleared)
                           | Some k4 \<Rightarrow> (None, cleared\<lparr>table := new_table\<rparr>)))))"

text \<open>
  The growth of libstdc++ and libc++, for the examples: a full vector doubles its
  capacity, and an empty one gets room for one element.
\<close>

definition doubling :: "nat \<Rightarrow> nat" where
  "doubling cap = max 1 (2 * cap)"

section \<open>Tables: placement, scans and updates of one bucket\<close>

lemma placed_iff:
  "placed h t \<longleftrightarrow> (\<forall>i<length t. \<forall>e\<in>set (t ! i). h e mod length t = i)"
  by (simp add: placed_def list_all_length all_set_conv_all_nth)

lemma placed_replicate: "placed h (replicate n [])"
  by (simp add: placed_iff)

lemma length_rehash_elem: "length (rehash_elem h nt e) = length nt"
  by (simp add: rehash_elem_def Let_def)

lemma mset_concat_append_at:
  "i < length t \<Longrightarrow> mset (concat (t[i := t ! i @ [e]])) = add_mset e (mset (concat t))"
  by (induction t arbitrary: i) (auto split: nat.splits)

lemma placed_append_at:
  assumes "placed h t" "0 < length t"
  shows "placed h (t[h e mod length t := t ! (h e mod length t) @ [e]])"
  using assms by (auto simp: placed_iff nth_list_update)

lemma foldl_rehash_length: "length (foldl (rehash_elem h) nt es) = length nt"
  by (induction es arbitrary: nt) (simp_all add: length_rehash_elem)

lemma foldl_rehash_mset:
  "0 < length nt \<Longrightarrow> mset (concat (foldl (rehash_elem h) nt es)) = mset (concat nt) + mset es"
  by (induction es arbitrary: nt) (simp_all add: length_rehash_elem rehash_elem_def Let_def mset_concat_append_at)

lemma foldl_rehash_placed:
  "0 < length nt \<Longrightarrow> placed h nt \<Longrightarrow> placed h (foldl (rehash_elem h) nt es)"
  by (induction es arbitrary: nt) (simp_all add: length_rehash_elem rehash_elem_def Let_def placed_append_at)

lemma foldl_foldl_concat: "foldl (\<lambda>a b. foldl f a b) a xss = foldl f a (concat xss)"
  by (induction xss arbitrary: a) simp_all

lemma table_Resize:
  "table (Resize h s) = foldl (rehash_elem h) (replicate (2 * length (table s)) []) (concat (table s))"
  by (simp add: Resize_def Let_def foldl_foldl_concat mult.commute)

lemma set_size_Resize: "set_size (Resize h s) = set_size s"
  by (simp add: Resize_def Let_def)

lemma length_table_Resize: "length (table (Resize h s)) = 2 * length (table s)"
  by (simp add: table_Resize foldl_rehash_length)

lemma mset_Resize: "mset (concat (table (Resize h s))) = mset (concat (table s))"
proof (cases "table s = []")
  case True
  then show ?thesis by (simp add: table_Resize)
next
  case False
  then show ?thesis by (simp add: table_Resize foldl_rehash_mset)
qed

lemma placed_Resize: "placed h (table (Resize h s))"
proof (cases "table s = []")
  case True
  then show ?thesis by (simp add: table_Resize placed_iff)
next
  case False
  then show ?thesis by (simp add: table_Resize foldl_rehash_placed placed_replicate)
qed

lemma concat_update:
  "i < length t \<Longrightarrow> concat (t[i := b]) = concat (take i t) @ b @ concat (drop (Suc i) t)"
  by (simp add: upd_conv_take_nth_drop)

lemma concat_split_at:
  "i < length t \<Longrightarrow> concat t = concat (take i t) @ t ! i @ concat (drop (Suc i) t)"
  using id_take_nth_drop [of i t] by (metis concat.simps(2) concat_append)

lemma in_concat_iff: "x \<in> set (concat t) \<longleftrightarrow> (\<exists>i<length t. x \<in> set (t ! i))"
proof -
  have "x \<in> set (concat t) \<longleftrightarrow> (\<exists>b\<in>set t. x \<in> set b)"
    by simp
  also have "\<dots> \<longleftrightarrow> (\<exists>i<length t. x \<in> set (t ! i))"
    by (metis in_set_conv_nth)
  finally show ?thesis .
qed

lemma placed_member:
  assumes "placed h t" "0 < length t"
  shows "x \<in> set (concat t) \<longleftrightarrow> x \<in> set (t ! (h x mod length t))"
proof
  assume "x \<in> set (concat t)"
  then obtain i where "i < length t" "x \<in> set (t ! i)"
    unfolding in_concat_iff by blast
  then show "x \<in> set (t ! (h x mod length t))"
    using assms(1) by (auto simp: placed_iff)
next
  assume "x \<in> set (t ! (h x mod length t))"
  moreover have "h x mod length t < length t"
    using assms(2) by simp
  ultimately show "x \<in> set (concat t)"
    unfolding in_concat_iff by blast
qed

lemma Contains'_placed:
  "0 < length (table s) \<Longrightarrow> placed h (table s) \<Longrightarrow>
   Contains' h s x = Inr (x \<in> set (concat (table s)))"
  using placed_member [of h "table s" x] by (simp add: Contains'_def Let_def del: set_concat)

lemma placed_removeAll_at:
  assumes "placed h t"
  shows "placed h (t[i := removeAll e (t ! i)])"
  unfolding placed_iff
proof (intro allI impI ballI)
  fix j x
  assume j: "j < length (t[i := removeAll e (t ! i)])"
    and x: "x \<in> set (t[i := removeAll e (t ! i)] ! j)"
  have "x \<in> set (t ! j)"
    using j x by (cases "j = i") simp_all
  then show "h x mod length (t[i := removeAll e (t ! i)]) = j"
    using assms j by (simp add: placed_iff)
qed

lemma set_concat_removeAll_at:
  assumes "placed h t" "0 < length t"
  shows "set (concat (t[h e mod length t := removeAll e (t ! (h e mod length t))])) = set (concat t) - {e}"
proof -
  let ?i = "h e mod length t"
  have i: "?i < length t" using assms(2) by simp
  have "\<And>j. j < length t \<Longrightarrow> j \<noteq> ?i \<Longrightarrow> e \<notin> set (t ! j)"
    using assms(1) by (auto simp: placed_iff)
  then show ?thesis using i
    unfolding set_eq_iff Diff_iff in_concat_iff
    by (auto simp: nth_list_update split: if_splits)
qed

lemma distinct_concat_removeAll_at:
  assumes "distinct (concat t)" "i < length t"
  shows "distinct (concat (t[i := removeAll e (t ! i)]))"
proof -
  have "distinct (concat (take i t) @ t ! i @ concat (drop (Suc i) t))"
    using assms concat_split_at [of i t] by simp
  then show ?thesis using assms(2)
    by (auto simp: concat_update distinct_removeAll)
qed

lemma length_concat_removeAll_at:
  assumes "distinct (concat t)" "i < length t" "e \<in> set (t ! i)"
  shows "Suc (length (concat (t[i := removeAll e (t ! i)]))) = length (concat t)"
proof -
  have d: "distinct (t ! i)"
    using assms(1,2) concat_split_at [of i t] by (metis distinct_append)
  have "Suc (length (removeAll e (t ! i))) = length (t ! i)"
    using d assms(3) by (simp add: distinct_remove1_removeAll [symmetric] length_remove1)
       (metis Suc_pred length_pos_if_in_set)
  then show ?thesis
    using assms(2) concat_split_at [of i t] by (simp add: concat_update)
qed

lemma distinct_concat_append_at:
  assumes "distinct (concat t)" "i < length t" "e \<notin> set (concat t)"
  shows "distinct (concat (t[i := t ! i @ [e]]))"
proof -
  have "distinct (concat (take i t) @ t ! i @ concat (drop (Suc i) t))"
    and "e \<notin> set (concat (take i t) @ t ! i @ concat (drop (Suc i) t))"
    using assms concat_split_at [of i t] by simp_all
  then show ?thesis using assms(2)
    by (auto simp: concat_update)
qed

section \<open>One operation\<close>

lemma Contains'_Inr:
  "0 < length (table s) \<Longrightarrow>
   Contains' h s x = Inr (x \<in> set (table s ! (h x mod length (table s))))"
  by (simp add: Contains'_def Let_def)

lemma Contains'_zero: "length (table s) = 0 \<Longrightarrow> Contains' h s x = Inl DivisionByZero"
  by (simp add: Contains'_def)

lemma table_inserted:
  "table (inserted h s x) =
   (table s)[h x mod length (table s) := table s ! (h x mod length (table s)) @ [x]]"
  by (simp add: inserted_def Let_def)

lemma set_size_inserted: "set_size (inserted h s x) = set_size s + 1"
  by (simp add: inserted_def Let_def)

lemma length_table_inserted: "length (table (inserted h s x)) = length (table s)"
  by (simp add: table_inserted)

lemma Policy_inserted:
  "0 < length (table s) \<Longrightarrow>
   Policy (inserted h s x) = Inr (bucket_capacity < unat (set_size s + 1) div length (table s))"
  by (simp add: Policy_def length_table_inserted set_size_inserted)

lemma Add_present:
  "Contains' h s x = Inr True \<Longrightarrow> Add h s x = Inr (False, s)"
  by (simp add: Add_def)

lemma Add_absent:
  assumes "Contains' h s x = Inr False"
  shows "Add h s x =
         Inr (True, if bucket_capacity < unat (set_size s + 1) div length (table s)
                    then Resize h (inserted h s x) else inserted h s x)"
proof -
  have pos: "0 < length (table s)"
    using assms by (cases "length (table s) = 0") (simp_all add: Contains'_def)
  have "inserted h s x =
        s\<lparr>table := (table s)[h x mod length (table s) := table s ! (h x mod length (table s)) @ [x]]\<rparr>
         \<lparr>set_size := set_size s + 1\<rparr>"
    by (simp add: inserted_def Let_def)
  then show ?thesis
    using assms Policy_inserted [OF pos, of h x] by (simp add: Add_def Let_def)
qed

lemma Add_zero: "length (table s) = 0 \<Longrightarrow> Add h s x = Inl DivisionByZero"
  by (simp add: Add_def Contains'_zero)

lemma Remove_absent:
  "Contains' h s x = Inr False \<Longrightarrow> Remove h s x = Inr (False, s)"
  by (simp add: Remove_def)

lemma Remove_present:
  "Contains' h s x = Inr True \<Longrightarrow>
   Remove h s x =
   Inr (True, s\<lparr>table := (table s)[h x mod length (table s) :=
                              removeAll x (table s ! (h x mod length (table s)))],
                 set_size := set_size s - 1\<rparr>)"
  by (simp add: Remove_def Let_def)

lemma Remove_zero: "length (table s) = 0 \<Longrightarrow> Remove h s x = Inl DivisionByZero"
  by (simp add: Remove_def Contains'_zero)

lemma in_concat_append_at:
  "i < length t \<Longrightarrow> e \<in> set (concat (t[i := t ! i @ [e]]))"
  by (simp add: concat_update)

lemma set_concat_append_at:
  "i < length t \<Longrightarrow> set (concat (t[i := t ! i @ [e]])) = insert e (set (concat t))"
  using mset_concat_append_at [of i t e]
  by (metis set_mset_add_mset_insert set_mset_mset)

lemma length_concat_append_at:
  "i < length t \<Longrightarrow> length (concat (t[i := t ! i @ [e]])) = Suc (length (concat t))"
  using mset_concat_append_at [of i t e]
  by (metis size_add_mset size_mset)

lemma mset_inserted:
  "0 < length (table s) \<Longrightarrow>
   mset (concat (table (inserted h s x))) = add_mset x (mset (concat (table s)))"
  by (simp add: table_inserted mset_concat_append_at)

lemma placed_inserted:
  "0 < length (table s) \<Longrightarrow> placed h (table s) \<Longrightarrow> placed h (table (inserted h s x))"
  by (simp add: table_inserted placed_append_at)

lemma Contains'_inserted:
  "0 < length (table s) \<Longrightarrow> Contains' h (inserted h s x) x = Inr True"
  by (simp add: Contains'_Inr length_table_inserted) (simp add: table_inserted)

lemma set_Resize: "set (concat (table (Resize h s))) = set (concat (table s))"
  using mset_Resize [of h s] by (metis set_mset_mset)

lemma length_concat_Resize: "length (concat (table (Resize h s))) = length (concat (table s))"
  using mset_Resize [of h s] by (metis size_mset)

lemma distinct_Resize: "distinct (concat (table (Resize h s))) = distinct (concat (table s))"
  using mset_Resize [of h s] by (metis mset_eq_imp_distinct_iff)

lemma Contains'_Resize:
  assumes "0 < length (table s)"
  shows "Contains' h (Resize h s) x = Inr (x \<in> set (concat (table s)))"
proof -
  have "0 < length (table (Resize h s))"
    using assms by (simp add: length_table_Resize)
  then show ?thesis
    using Contains'_placed [OF _ placed_Resize, of h s x] by (simp add: set_Resize del: set_concat)
qed

section \<open>The contracts of the operations\<close>

text \<open>
  Claim C2. In a state with at least one bucket, \<open>Add\<close> of an element that
  \<open>Contains\<close> reports present returns \<open>False\<close> and the state is unchanged. \<open>Add\<close> of
  an absent element returns \<open>True\<close>; the element is appended to the bucket with index
  \<open>h x mod capacity\<close>, the counter is incremented by one (in 64-bit arithmetic), the
  policy is evaluated on that state and the table is rehashed into twice the capacity
  when it holds; the scan of the buckets gains exactly the new element. A second
  \<open>Add\<close> of the same element returns \<open>False\<close> and leaves the state, hence \<open>Size\<close>,
  unchanged. Where every element sits in the bucket of its hash, \<open>Contains\<close> is
  membership in the scan of all buckets.
\<close>

theorem Add_contract:
  assumes "0 < capacity s"
  shows "(well_placed h s \<longrightarrow> Contains h s x = Inr (x \<in> set (elements s))) \<and>
         (Contains h s x = Inr True \<longrightarrow> Add h s x = Inr (False, s)) \<and>
         (Contains h s x = Inr False \<longrightarrow>
            (\<exists>s'. Add h s x = Inr (True, s') \<and>
               s' = (if Policy (inserted h s x) = Inr True
                     then Resize h (inserted h s x) else inserted h s x) \<and>
               table (inserted h s x) =
                 (table s)[h x mod capacity s := table s ! (h x mod capacity s) @ [x]] \<and>
               Size s' = Size s + 1 \<and>
               (capacity s' = capacity s \<or> capacity s' = 2 * capacity s) \<and>
               mset (elements s') = add_mset x (mset (elements s)) \<and>
               Contains h s' x = Inr True \<and>
               Add h s' x = Inr (False, s')))"
proof (intro conjI impI)
  assume "well_placed h s"
  then show "Contains h s x = Inr (x \<in> set (elements s))"
    using assms
    by (simp add: Contains_def Contains'_placed well_placed_def elements_def capacity_def
        del: set_concat)
next
  assume "Contains h s x = Inr True"
  then show "Add h s x = Inr (False, s)"
    by (simp add: Add_present Contains_def)
next
  assume absent: "Contains h s x = Inr False"
  have pos: "0 < length (table s)"
    using assms by (simp add: capacity_def)
  let ?s2 = "inserted h s x"
  let ?s' = "if Policy ?s2 = Inr True then Resize h ?s2 else ?s2"
  have pos2: "0 < length (table ?s2)"
    using pos by (simp add: length_table_inserted)
  have add: "Add h s x = Inr (True, ?s')"
    using absent Add_absent [of h s x] Policy_inserted [OF pos, of h x]
    by (simp add: Contains_def)
  have tab: "table ?s2 = (table s)[h x mod capacity s := table s ! (h x mod capacity s) @ [x]]"
    by (simp add: table_inserted capacity_def)
  have size: "Size ?s' = Size s + 1"
    by (simp add: Size_def set_size_Resize set_size_inserted)
  have cap: "capacity ?s' = capacity s \<or> capacity ?s' = 2 * capacity s"
    by (simp add: capacity_def length_table_Resize length_table_inserted)
  have ms: "mset (elements ?s') = add_mset x (mset (elements s))"
    using pos by (simp add: elements_def mset_Resize mset_inserted)
  have "x \<in> set (concat (table ?s2))"
    using mset_inserted [OF pos, of h x] by (metis set_mset_mset union_single_eq_member)
  then have cont: "Contains h ?s' x = Inr True"
    using Contains'_Resize [OF pos2, of h x] Contains'_inserted [OF pos, of h x]
    by (simp add: Contains_def del: set_concat)
  have again: "Add h ?s' x = Inr (False, ?s')"
    using cont by (simp add: Add_present Contains_def)
  show "\<exists>s'. Add h s x = Inr (True, s') \<and>
               s' = (if Policy (inserted h s x) = Inr True
                     then Resize h (inserted h s x) else inserted h s x) \<and>
               table (inserted h s x) =
                 (table s)[h x mod capacity s := table s ! (h x mod capacity s) @ [x]] \<and>
               Size s' = Size s + 1 \<and>
               (capacity s' = capacity s \<or> capacity s' = 2 * capacity s) \<and>
               mset (elements s') = add_mset x (mset (elements s)) \<and>
               Contains h s' x = Inr True \<and>
               Add h s' x = Inr (False, s')"
    using add tab size cap ms cont again by (intro exI [of _ ?s']) (simp only: simp_thms)
qed

theorem Add_contract_witness:
  "0 < capacity \<lparr>set_size = 2, table = [[4], [1], [], []]\<rparr> \<and>
   Contains (\<lambda>n::nat. n) \<lparr>set_size = 2, table = [[4], [1], [], []]\<rparr> 4 = Inr True \<and>
   Add (\<lambda>n::nat. n) \<lparr>set_size = 2, table = [[4], [1], [], []]\<rparr> 4 =
     Inr (False, \<lparr>set_size = 2, table = [[4], [1], [], []]\<rparr>) \<and>
   Contains (\<lambda>n::nat. n) \<lparr>set_size = 2, table = [[4], [1], [], []]\<rparr> 5 = Inr False \<and>
   Add (\<lambda>n::nat. n) \<lparr>set_size = 2, table = [[4], [1], [], []]\<rparr> 5 =
     Inr (True, \<lparr>set_size = 3, table = [[4], [1, 5], [], []]\<rparr>) \<and>
   Add (\<lambda>n::nat. n) \<lparr>set_size = 3, table = [[4], [1, 5], [], []]\<rparr> 5 =
     Inr (False, \<lparr>set_size = 3, table = [[4], [1, 5], [], []]\<rparr>)"
  using Add_contract [of "\<lparr>set_size = 2, table = [[4], [1], [], []]\<rparr>" "\<lambda>n::nat. n" 4]
    Add_contract [of "\<lparr>set_size = 2, table = [[4], [1], [], []]\<rparr>" "\<lambda>n::nat. n" 5]
  by (simp add: capacity_def Contains_def Contains'_def Add_def Policy_def inserted_def
      bucket_capacity_def Let_def)

lemma request_None: "request needed k = None \<longleftrightarrow> needed \<and> k = 0"
  by (simp add: request_def split: nat.splits)

lemma New_Inr: "New max_size k n = Inr s \<Longrightarrow> s = fresh (unat n)"
  by (simp add: New_def split: if_splits option.splits)

lemma Remove_fresh: "0 < c \<Longrightarrow> Remove h (fresh c) x = Inr (False, fresh c)"
  by (rule Remove_absent) (simp add: Contains'_Inr fresh_def)

text \<open>
  Claim C3. In a state with at least one bucket, \<open>Remove\<close> of an element that
  \<open>Contains\<close> reports absent returns \<open>False\<close> and the state is unchanged; so it is on
  a set without elements, and on a fresh set (every set that the constructor returns
  for a capacity other than 0), whose size stays 0. \<open>Remove\<close> of a present
  element returns \<open>True\<close>, deletes the element from the bucket of its hash, decrements
  the counter by one (in 64-bit arithmetic) and keeps the number of buckets. Where every
  element sits in the bucket of its hash the element is then in no bucket; where no
  element occurs twice the scan is shorter by exactly one.
\<close>

theorem Remove_contract:
  assumes "0 < capacity s"
  shows "(Contains h s x = Inr False \<longrightarrow> Remove h s x = Inr (False, s)) \<and>
         (elements s = [] \<longrightarrow> Remove h s x = Inr (False, s)) \<and>
         (\<exists>s0. s0 = fresh (capacity s) \<and> Remove h s0 x = Inr (False, s0) \<and> Size s0 = 0) \<and>
         (\<forall>max_size k n s0. New max_size k n = Inr s0 \<and> n \<noteq> 0 \<longrightarrow>
            Remove h s0 x = Inr (False, s0) \<and> Size s0 = 0) \<and>
         (Contains h s x = Inr True \<longrightarrow>
            (\<exists>s'. Remove h s x = Inr (True, s') \<and>
               table s' = (table s)[h x mod capacity s :=
                             removeAll x (table s ! (h x mod capacity s))] \<and>
               Size s' = Size s - 1 \<and>
               capacity s' = capacity s \<and>
               x \<notin> set (table s' ! (h x mod capacity s')) \<and>
               (well_placed h s \<longrightarrow> x \<notin> set (elements s') \<and> Contains h s' x = Inr False) \<and>
               (distinct (elements s) \<longrightarrow> length (elements s') + 1 = length (elements s))))"
proof (intro conjI impI)
  assume "Contains h s x = Inr False"
  then show "Remove h s x = Inr (False, s)"
    by (simp add: Remove_absent Contains_def)
next
  assume "elements s = []"
  then have "\<forall>b\<in>set (table s). b = []"
    by (simp add: elements_def)
  then have "table s ! (h x mod length (table s)) = []"
    using assms by (simp add: capacity_def)
  then have "Contains' h s x = Inr False"
    using assms by (simp add: Contains'_Inr capacity_def)
  then show "Remove h s x = Inr (False, s)"
    by (rule Remove_absent)
next
  show "\<exists>s0. s0 = fresh (capacity s) \<and> Remove h s0 x = Inr (False, s0) \<and> Size s0 = 0"
    using assms Remove_fresh [of "capacity s" h x] by (simp add: Size_def fresh_def)
next
  show "\<forall>max_size k n s0. New max_size k n = Inr s0 \<and> n \<noteq> 0 \<longrightarrow>
          Remove h s0 x = Inr (False, s0) \<and> Size s0 = 0"
  proof (intro allI impI)
    fix max_size k and n :: size_t and s0 :: "'a hash_set"
    assume a: "New max_size k n = Inr s0 \<and> n \<noteq> 0"
    then have "s0 = fresh (unat n)" and "0 < unat n"
      using New_Inr [of max_size k n s0] by (simp_all add: unat_gt_0)
    then show "Remove h s0 x = Inr (False, s0) \<and> Size s0 = 0"
      using Remove_fresh [of "unat n" h x] by (simp add: Size_def fresh_def)
  qed
next
  assume present: "Contains h s x = Inr True"
  let ?i = "h x mod length (table s)"
  let ?s' = "s\<lparr>table := (table s)[?i := removeAll x (table s ! ?i)], set_size := set_size s - 1\<rparr>"
  have pos: "0 < length (table s)"
    using assms by (simp add: capacity_def)
  then have i: "?i < length (table s)"
    by simp
  have inb: "x \<in> set (table s ! ?i)"
    using present pos by (simp add: Contains_def Contains'_Inr)
  have rem: "Remove h s x = Inr (True, ?s')"
    using present by (simp add: Remove_present Contains_def)
  have notin: "x \<notin> set (table ?s' ! (h x mod capacity ?s'))"
    using i by (simp add: capacity_def)
  have wp: "x \<notin> set (elements ?s') \<and> Contains h ?s' x = Inr False" if "well_placed h s"
  proof -
    have p: "placed h (table s)"
      using that by (simp add: well_placed_def)
    have "x \<notin> set (elements ?s')"
      using set_concat_removeAll_at [OF p pos, of x] by (simp add: elements_def del: set_concat)
    moreover have "Contains h ?s' x = Inr False"
      using i pos by (simp add: Contains_def Contains'_def Let_def)
    ultimately show ?thesis by simp
  qed
  have len: "length (elements ?s') + 1 = length (elements s)" if "distinct (elements s)"
    using length_concat_removeAll_at [OF _ i inb] that by (simp add: elements_def)
  show "\<exists>s'. Remove h s x = Inr (True, s') \<and>
               table s' = (table s)[h x mod capacity s :=
                             removeAll x (table s ! (h x mod capacity s))] \<and>
               Size s' = Size s - 1 \<and>
               capacity s' = capacity s \<and>
               x \<notin> set (table s' ! (h x mod capacity s')) \<and>
               (well_placed h s \<longrightarrow> x \<notin> set (elements s') \<and> Contains h s' x = Inr False) \<and>
               (distinct (elements s) \<longrightarrow> length (elements s') + 1 = length (elements s))"
  proof (intro exI [of _ ?s'] conjI impI)
    show "Remove h s x = Inr (True, ?s')" by (rule rem)
    show "table ?s' = (table s)[h x mod capacity s :=
                             removeAll x (table s ! (h x mod capacity s))]"
      by (simp add: capacity_def)
    show "Size ?s' = Size s - 1" by (simp add: Size_def)
    show "capacity ?s' = capacity s" by (simp add: capacity_def)
    show "x \<notin> set (table ?s' ! (h x mod capacity ?s'))" by (rule notin)
    show "x \<notin> set (elements ?s')" if "well_placed h s" using wp that by blast
    show "Contains h ?s' x = Inr False" if "well_placed h s" using wp that by blast
    show "length (elements ?s') + 1 = length (elements s)" if "distinct (elements s)"
      using len that by blast
  qed
qed

theorem Remove_contract_witness:
  "0 < capacity \<lparr>set_size = 3, table = [[4], [1, 5], [], []]\<rparr> \<and>
   Contains (\<lambda>n::nat. n) \<lparr>set_size = 3, table = [[4], [1, 5], [], []]\<rparr> 1 = Inr True \<and>
   Remove (\<lambda>n::nat. n) \<lparr>set_size = 3, table = [[4], [1, 5], [], []]\<rparr> 1 =
     Inr (True, \<lparr>set_size = 2, table = [[4], [5], [], []]\<rparr>) \<and>
   Contains (\<lambda>n::nat. n) \<lparr>set_size = 3, table = [[4], [1, 5], [], []]\<rparr> 9 = Inr False \<and>
   Remove (\<lambda>n::nat. n) \<lparr>set_size = 3, table = [[4], [1, 5], [], []]\<rparr> 9 =
     Inr (False, \<lparr>set_size = 3, table = [[4], [1, 5], [], []]\<rparr>) \<and>
   Remove (\<lambda>n::nat. n) \<lparr>set_size = 0, table = [[], [], [], []]\<rparr> 9 =
     Inr (False, \<lparr>set_size = 0, table = [[], [], [], []]\<rparr>)"
  using Remove_contract [of "\<lparr>set_size = 3, table = [[4], [1, 5], [], []]\<rparr>" "\<lambda>n::nat. n" 1]
    Remove_contract [of "\<lparr>set_size = 3, table = [[4], [1, 5], [], []]\<rparr>" "\<lambda>n::nat. n" 9]
  by (simp add: capacity_def Contains_def Contains'_def Remove_def Let_def)

section \<open>The resize policy\<close>

lemma replicate_2: "replicate 2 x = [x, x]"
  by (simp add: numeral_2_eq_2)

lemma Add_True_cases:
  assumes "Add h s x = Inr (True, s')"
  shows "0 < length (table s) \<and> Contains' h s x = Inr False \<and>
         s' = (if bucket_capacity < unat (set_size s + 1) div length (table s)
               then Resize h (inserted h s x) else inserted h s x)"
proof -
  have pos: "0 < length (table s)"
    using assms by (cases "length (table s) = 0") (simp_all add: Add_zero)
  have absent: "Contains' h s x = Inr False"
  proof (cases "x \<in> set (table s ! (h x mod length (table s)))")
    case True
    then have "Add h s x = Inr (False, s)"
      using pos by (simp add: Add_present Contains'_Inr)
    then show ?thesis using assms by simp
  next
    case False
    then show ?thesis using pos by (simp add: Contains'_Inr)
  qed
  show ?thesis
    using assms pos absent Add_absent [OF absent] by simp
qed

text \<open>
  Claim C4. For every \<open>Add\<close> that returns \<open>True\<close>: the number of buckets doubles in
  that call exactly when, after the increment of the counter, the truncating quotient
  of the counter by the number of buckets is greater than 4, and is unchanged exactly
  when it is not; the policy is that comparison on natural-number division. When it
  holds, the new table has exactly twice the old number of buckets, starts from empty
  buckets and receives every element of the old table (the new one included) in the
  order of the scan, each in the bucket with index \<open>h e mod\<close> the new number of buckets;
  no element is lost or duplicated.
\<close>

theorem Resize_policy:
  assumes "Add h s x = Inr (True, s')"
  shows "(capacity s' = 2 * capacity s) = (4 < unat (Size s + 1) div capacity s) \<and>
         (capacity s' = capacity s) = (\<not> 4 < unat (Size s + 1) div capacity s) \<and>
         Size (inserted h s x) = Size s + 1 \<and>
         capacity (inserted h s x) = capacity s \<and>
         Policy (inserted h s x) = Inr (4 < unat (Size s + 1) div capacity s) \<and>
         (if 4 < unat (Size s + 1) div capacity s
          then s' = Resize h (inserted h s x) \<and>
               length (table s') = 2 * capacity s \<and>
               table s' = foldl (rehash_elem h) (replicate (2 * capacity s) [])
                            (elements (inserted h s x)) \<and>
               well_placed h s' \<and>
               mset (elements s') = mset (elements (inserted h s x)) \<and>
               mset (elements s') = add_mset x (mset (elements s))
          else s' = inserted h s x)"
proof -
  note c = Add_True_cases [OF assms]
  have pos: "0 < length (table s)" using c by simp
  have s': "s' = (if 4 < unat (Size s + 1) div capacity s
               then Resize h (inserted h s x) else inserted h s x)"
    using c by (simp add: bucket_capacity_def Size_def capacity_def)
  have pol: "Policy (inserted h s x) = Inr (4 < unat (Size s + 1) div capacity s)"
    using Policy_inserted [OF pos, of h x] by (simp add: bucket_capacity_def Size_def capacity_def)
  show ?thesis
  proof (cases "4 < unat (Size s + 1) div capacity s")
    case True
    then have eq: "s' = Resize h (inserted h s x)" using s' by simp
    have "capacity s' = 2 * capacity s"
      by (simp add: eq capacity_def length_table_Resize length_table_inserted)
    moreover have "capacity s' \<noteq> capacity s"
      using pos calculation by (simp add: capacity_def)
    moreover have "table s' = foldl (rehash_elem h) (replicate (2 * capacity s) [])
                            (elements (inserted h s x))"
      by (simp add: eq table_Resize elements_def capacity_def length_table_inserted)
    moreover have "well_placed h s'"
      by (simp add: eq well_placed_def placed_Resize)
    moreover have "mset (elements s') = mset (elements (inserted h s x))"
      by (simp add: eq elements_def mset_Resize)
    moreover have "mset (elements s') = add_mset x (mset (elements s))"
      using pos by (simp add: eq elements_def mset_Resize mset_inserted)
    ultimately show ?thesis
      using True eq pol
      by (simp add: Size_def set_size_inserted capacity_def length_table_inserted)
  next
    case False
    then have eq: "s' = inserted h s x" using s' by simp
    have "capacity s' = capacity s"
      by (simp add: eq capacity_def length_table_inserted)
    moreover have "capacity s' \<noteq> 2 * capacity s"
      using pos calculation by (simp add: capacity_def)
    ultimately show ?thesis
      using False eq pol
      by (simp add: Size_def set_size_inserted capacity_def length_table_inserted)
  qed
qed

theorem Resize_policy_witness:
  "Add (\<lambda>n::nat. n) \<lparr>set_size = 4, table = [[0, 1, 2, 3]]\<rparr> 4 =
     Inr (True, \<lparr>set_size = 5, table = [[0, 2, 4], [1, 3]]\<rparr>) \<and>
   capacity \<lparr>set_size = 5, table = [[0, 2, 4], [1, 3 :: nat]]\<rparr> =
     2 * capacity \<lparr>set_size = 4, table = [[0, 1, 2, 3 :: nat]]\<rparr> \<and>
   4 < unat (Size \<lparr>set_size = 4, table = [[0, 1, 2, 3 :: nat]]\<rparr> + 1)
         div capacity \<lparr>set_size = 4, table = [[0, 1, 2, 3 :: nat]]\<rparr> \<and>
   Add (\<lambda>n::nat. n) \<lparr>set_size = 3, table = [[0, 1, 2]]\<rparr> 3 =
     Inr (True, \<lparr>set_size = 4, table = [[0, 1, 2, 3]]\<rparr>) \<and>
   \<not> 4 < unat (Size \<lparr>set_size = 3, table = [[0, 1, 2 :: nat]]\<rparr> + 1)
         div capacity \<lparr>set_size = 3, table = [[0, 1, 2 :: nat]]\<rparr>"
proof -
  have a: "Add (\<lambda>n::nat. n) \<lparr>set_size = 4, table = [[0, 1, 2, 3]]\<rparr> 4 =
     Inr (True, \<lparr>set_size = 5, table = [[0, 2, 4], [1, 3]]\<rparr>)"
    by (simp add: Contains'_def Add_def Policy_def bucket_capacity_def
        Resize_def rehash_elem_def Let_def replicate_2)
  have b: "Add (\<lambda>n::nat. n) \<lparr>set_size = 3, table = [[0, 1, 2]]\<rparr> 3 =
     Inr (True, \<lparr>set_size = 4, table = [[0, 1, 2, 3]]\<rparr>)"
    by (simp add: Contains'_def Add_def Policy_def bucket_capacity_def Let_def)
  have c: "capacity \<lparr>set_size = 5, table = [[0, 2, 4], [1, 3 :: nat]]\<rparr> =
     2 * capacity \<lparr>set_size = 4, table = [[0, 1, 2, 3 :: nat]]\<rparr>"
    by (simp add: capacity_def)
  then have fire: "4 < unat (Size \<lparr>set_size = 4, table = [[0, 1, 2, 3 :: nat]]\<rparr> + 1)
         div capacity \<lparr>set_size = 4, table = [[0, 1, 2, 3 :: nat]]\<rparr>"
    using Resize_policy [OF a] by blast
  have "capacity \<lparr>set_size = 4, table = [[0, 1, 2, 3 :: nat]]\<rparr> =
     capacity \<lparr>set_size = 3, table = [[0, 1, 2 :: nat]]\<rparr>"
    by (simp add: capacity_def)
  then have quiet: "\<not> 4 < unat (Size \<lparr>set_size = 3, table = [[0, 1, 2 :: nat]]\<rparr> + 1)
         div capacity \<lparr>set_size = 3, table = [[0, 1, 2 :: nat]]\<rparr>"
    using Resize_policy [OF b] by blast
  show ?thesis
    using a b c fire quiet by blast
qed

text \<open>
  Claim C10. \<open>Resize\<close> writes the table only: the counter of the resized state is the
  counter of the state it was called on. So for an \<open>Add\<close> that returns \<open>True\<close> and
  doubles the number of buckets, \<open>Size\<close> after the call is \<open>Size\<close> before it plus one,
  and the element just added is among the rehashed elements, in the bucket of its hash
  under the new number of buckets.
\<close>

theorem Resize_frame:
  assumes "Add h s x = Inr (True, s')" and "capacity s' = 2 * capacity s"
  shows "Size (Resize h t) = Size t \<and>
         s' = Resize h (inserted h s x) \<and>
         Size s' = Size (inserted h s x) \<and>
         Size s' = Size s + 1 \<and>
         x \<in> set (elements (inserted h s x)) \<and>
         x \<in> set (elements s') \<and>
         x \<in> set (table s' ! (h x mod capacity s'))"
proof -
  note c = Add_True_cases [OF assms(1)]
  have pos: "0 < length (table s)" using c by simp
  have eq: "s' = Resize h (inserted h s x)"
  proof (rule ccontr)
    assume "s' \<noteq> Resize h (inserted h s x)"
    then have "s' = inserted h s x" using c by (simp split: if_splits)
    then have "capacity s' = capacity s" by (simp add: capacity_def length_table_inserted)
    then show False using assms(2) pos by (simp add: capacity_def)
  qed
  have pos2: "0 < length (table (inserted h s x))"
    using pos by (simp add: length_table_inserted)
  have in2: "x \<in> set (concat (table (inserted h s x)))"
    using mset_inserted [OF pos, of h x] by (metis set_mset_mset union_single_eq_member)
  then have in': "x \<in> set (concat (table s'))"
    by (simp add: eq set_Resize del: set_concat)
  have "Contains' h s' x = Inr True"
    using Contains'_Resize [OF pos2, of h x] in2 by (simp add: eq del: set_concat)
  moreover have "0 < length (table s')"
    using pos2 by (simp add: eq length_table_Resize)
  ultimately have "x \<in> set (table s' ! (h x mod capacity s'))"
    by (simp add: Contains'_Inr capacity_def)
  then show ?thesis
    using in2 in' eq
    by (simp add: Size_def set_size_Resize set_size_inserted elements_def del: set_concat)
qed

theorem Resize_frame_witness:
  "Add (\<lambda>n::nat. n) \<lparr>set_size = 4, table = [[0, 1, 2, 3]]\<rparr> 4 =
     Inr (True, \<lparr>set_size = 5, table = [[0, 2, 4], [1, 3]]\<rparr>) \<and>
   capacity \<lparr>set_size = 5, table = [[0, 2, 4], [1, 3 :: nat]]\<rparr> =
     2 * capacity \<lparr>set_size = 4, table = [[0, 1, 2, 3 :: nat]]\<rparr> \<and>
   Size \<lparr>set_size = 5, table = [[0, 2, 4], [1, 3 :: nat]]\<rparr> =
     Size \<lparr>set_size = 4, table = [[0, 1, 2, 3 :: nat]]\<rparr> + 1 \<and>
   (4 :: nat) \<in> set (elements \<lparr>set_size = 5, table = [[0, 2, 4], [1, 3 :: nat]]\<rparr>)"
proof -
  have a: "Add (\<lambda>n::nat. n) \<lparr>set_size = 4, table = [[0, 1, 2, 3]]\<rparr> 4 =
     Inr (True, \<lparr>set_size = 5, table = [[0, 2, 4], [1, 3]]\<rparr>)"
    by (simp add: Contains'_def Add_def Policy_def bucket_capacity_def
        Resize_def rehash_elem_def Let_def replicate_2)
  have c: "capacity \<lparr>set_size = 5, table = [[0, 2, 4], [1, 3 :: nat]]\<rparr> =
     2 * capacity \<lparr>set_size = 4, table = [[0, 1, 2, 3 :: nat]]\<rparr>"
    by (simp add: capacity_def)
  show ?thesis
    using Resize_frame [OF a c, where t = "\<lparr>set_size = 0, table = []\<rparr>"] a c by blast
qed

section \<open>The constructor\<close>

text \<open>
  Claim C5, as the code has it. The constructor does not reject the capacity 0: for
  every limit of the vector and every allocator it returns a set of size 0 without
  buckets, on which \<open>Add\<close>, \<open>Remove\<close> and \<open>Contains\<close> all take a remainder modulo zero.
  For a capacity other than 0 it fails only where the vector of buckets cannot be
  built, with \<open>LengthError\<close> above the limit of the vector and \<open>BadAlloc\<close> when the
  allocator refuses the array; otherwise it returns a set of size 0 with that many
  empty buckets, in which every element is reported absent.
\<close>

theorem New_outcomes:
  "New max_size k n =
     (if max_size < unat n then Inl LengthError
      else if n \<noteq> 0 \<and> k = 0 then Inl BadAlloc
      else Inr (fresh (unat n))) \<and>
   New max_size k 0 = Inr (fresh 0) \<and>
   capacity (fresh 0 :: 'a hash_set) = 0 \<and>
   Size (fresh 0 :: 'a hash_set) = 0 \<and>
   Add h (fresh 0) x = Inl DivisionByZero \<and>
   Remove h (fresh 0) x = Inl DivisionByZero \<and>
   Contains h (fresh 0) x = Inl DivisionByZero \<and>
   (\<forall>s. New max_size k n = Inr s \<and> n \<noteq> 0 \<longrightarrow>
      Size s = 0 \<and> capacity s = unat n \<and> 0 < capacity s \<and> elements s = [] \<and>
      well_placed h s \<and> Contains h s x = Inr False)"
proof -
  have a: "New max_size k n =
     (if max_size < unat n then Inl LengthError
      else if n \<noteq> 0 \<and> k = 0 then Inl BadAlloc
      else Inr (fresh (unat n)))"
    by (cases "request (n \<noteq> 0) k") (auto simp: New_def request_def split: nat.splits if_splits)
  have b: "New max_size k 0 = Inr (fresh 0)"
    by (simp add: New_def request_def)
  have c: "Add h (fresh 0) x = Inl DivisionByZero" "Remove h (fresh 0) x = Inl DivisionByZero"
    "Contains h (fresh 0) x = Inl DivisionByZero"
    by (simp_all add: Add_zero Remove_zero Contains_def Contains'_zero fresh_def)
  have d: "Size s = 0 \<and> capacity s = unat n \<and> 0 < capacity s \<and> elements s = [] \<and>
      well_placed h s \<and> Contains h s x = Inr False"
    if "New max_size k n = Inr s \<and> n \<noteq> 0" for s
  proof -
    have "s = fresh (unat n)" and "0 < unat n"
      using that New_Inr [of max_size k n s] by (simp_all add: unat_gt_0)
    then show ?thesis
      by (simp add: fresh_def Size_def capacity_def elements_def well_placed_def
          placed_replicate Contains_def Contains'_Inr)
  qed
  have e: "capacity (fresh 0 :: 'a hash_set) = 0" "Size (fresh 0 :: 'a hash_set) = 0"
    by (simp_all add: fresh_def capacity_def Size_def)
  show ?thesis
    using a b c d e by blast
qed

theorem New_outcomes_witness:
  "(New 1000 1 4 :: error + nat hash_set) = Inr \<lparr>set_size = 0, table = [[], [], [], []]\<rparr> \<and>
   Contains (\<lambda>n::nat. n) \<lparr>set_size = 0, table = [[], [], [], []]\<rparr> 7 = Inr False \<and>
   (New 1000 0 4 :: error + nat hash_set) = Inl BadAlloc \<and>
   (New 1000 1 1001 :: error + nat hash_set) = Inl LengthError \<and>
   (New 1000 0 0 :: error + nat hash_set) = Inr \<lparr>set_size = 0, table = []\<rparr>"
proof -
  have e: "(New 1000 1 4 :: error + nat hash_set) = Inr \<lparr>set_size = 0, table = [[], [], [], []]\<rparr>"
    by code_simp
  have "(4 :: size_t) \<noteq> 0" by simp
  then have "Contains (\<lambda>n::nat. n) \<lparr>set_size = 0, table = [[], [], [], []]\<rparr> 7 = Inr False"
    using New_outcomes [of 1000 1 4 "\<lambda>n::nat. n" 7] e by blast
  moreover have "(New 1000 0 4 :: error + nat hash_set) = Inl BadAlloc"
    "(New 1000 1 1001 :: error + nat hash_set) = Inl LengthError"
    "(New 1000 0 0 :: error + nat hash_set) = Inr \<lparr>set_size = 0, table = []\<rparr>"
    by (simp_all add: New_def request_def fresh_def)
  ultimately show ?thesis
    using e by simp
qed

text \<open>
  Claim C5 as stated fails: a set of initial capacity 0 is constructed, not rejected,
  even by an allocator that grants nothing, and the first \<open>Add\<close> on it divides by zero.
\<close>

theorem New_zero_not_rejected:
  "(New 1000 0 0 :: error + nat hash_set) = Inr \<lparr>set_size = 0, table = []\<rparr> \<and>
   Add (\<lambda>n::nat. n) \<lparr>set_size = 0, table = []\<rparr> 7 = Inl DivisionByZero"
  by (simp add: New_def request_def fresh_def Add_def Contains'_def)

section \<open>Sequences of operations\<close>

lemma run_append:
  "run h s (ops1 @ ops2) =
   (case run h s ops1 of Inl e \<Rightarrow> Inl e | Inr s' \<Rightarrow> run h s' ops2)"
  by (induction ops1 arbitrary: s) (simp_all split: sum.splits)

lemma step_Add_placed:
  assumes pos: "0 < length (table s)" and pl: "placed h (table s)"
  shows "\<exists>s'. step h s (OpAdd x) = Inr s' \<and> placed h (table s') \<and>
              length (table s) \<le> length (table s') \<and>
              set (concat (table s')) = insert x (set (concat (table s)))"
proof (cases "x \<in> set (concat (table s))")
  case True
  then have "Add h s x = Inr (False, s)"
    using Contains'_placed [OF pos pl, of x] by (simp add: Add_present del: set_concat)
  then show ?thesis
    using True pl by (simp add: insert_absorb del: set_concat)
next
  case False
  then have absent: "Contains' h s x = Inr False"
    using Contains'_placed [OF pos pl, of x] by (simp del: set_concat)
  let ?s2 = "inserted h s x"
  have p2: "placed h (table ?s2)"
    using pos pl by (rule placed_inserted)
  have set2: "set (concat (table ?s2)) = insert x (set (concat (table s)))"
    using pos by (simp add: table_inserted set_concat_append_at del: set_concat)
  show ?thesis
    using Add_absent [OF absent] p2 set2
    by (simp add: placed_Resize length_table_Resize length_table_inserted set_Resize
        del: set_concat)
qed

lemma step_Remove_placed:
  assumes pos: "0 < length (table s)" and pl: "placed h (table s)"
  shows "\<exists>s'. step h s (OpRemove x) = Inr s' \<and> placed h (table s') \<and>
              length (table s) = length (table s') \<and>
              set (concat (table s')) = set (concat (table s)) - {x}"
proof (cases "x \<in> set (concat (table s))")
  case True
  then have "Contains' h s x = Inr True"
    using Contains'_placed [OF pos pl, of x] by (simp del: set_concat)
  then show ?thesis
    using pl set_concat_removeAll_at [OF pl pos, of x]
    by (simp add: Remove_present placed_removeAll_at del: set_concat)
next
  case False
  then have "Contains' h s x = Inr False"
    using Contains'_placed [OF pos pl, of x] by (simp del: set_concat)
  then show ?thesis
    using False pl by (simp add: Remove_absent del: set_concat)
qed

lemma step_Contains_placed:
  assumes pos: "0 < length (table s)"
  shows "step h s (OpContains x) = Inr s"
  using pos by (simp add: Contains_def Contains'_Inr)

lemma run_placed:
  assumes "0 < length (table s)" and "placed h (table s)"
  shows "\<exists>s'. run h s ops = Inr s' \<and> placed h (table s') \<and>
              length (table s) \<le> length (table s') \<and>
              (x \<in> set (concat (table s'))) = net_effect x (x \<in> set (concat (table s))) ops"
  using assms
proof (induction ops arbitrary: s)
  case Nil
  then show ?case by simp
next
  case (Cons op ops)
  show ?case
  proof (cases op)
    case (OpAdd y)
    obtain s1 where s1: "step h s (OpAdd y) = Inr s1" "placed h (table s1)"
      "length (table s) \<le> length (table s1)"
      "set (concat (table s1)) = insert y (set (concat (table s)))"
      using step_Add_placed [OF Cons.prems, of y] by blast
    have pos1: "0 < length (table s1)"
      using s1(3) Cons.prems(1) by auto
    have "(x \<in> set (concat (table s1))) = (x \<in> set (concat (table s)) \<or> y = x)"
      unfolding s1(4) by auto
    then show ?thesis
      using Cons.IH [OF pos1 s1(2)] s1(1,3) OpAdd by (auto simp del: set_concat step.simps)
  next
    case (OpRemove y)
    obtain s1 where s1: "step h s (OpRemove y) = Inr s1" "placed h (table s1)"
      "length (table s) = length (table s1)"
      "set (concat (table s1)) = set (concat (table s)) - {y}"
      using step_Remove_placed [OF Cons.prems, of y] by blast
    have pos1: "0 < length (table s1)"
      using s1(3) Cons.prems(1) by simp
    have "(x \<in> set (concat (table s1))) = (x \<in> set (concat (table s)) \<and> y \<noteq> x)"
      unfolding s1(4) by auto
    then show ?thesis
      using Cons.IH [OF pos1 s1(2)] s1(1,3) OpRemove by (auto simp del: set_concat step.simps)
  next
    case (OpContains y)
    then show ?thesis
      using Cons.IH [OF Cons.prems] step_Contains_placed [OF Cons.prems(1), of h y]
      by (simp del: set_concat step.simps)
  qed
qed

lemma session_run:
  "session h c ops = run h \<lparr>set_size = 0, table = replicate c []\<rparr> ops"
  by (simp add: session_def fresh_def)

text \<open>
  The net effect in the words of the specification: \<open>x\<close> is present after the sequence
  exactly when the sequence contains an \<open>Add x\<close> with no \<open>Remove x\<close> after it.
\<close>

lemma net_effect_iff:
  "net_effect x p ops \<longleftrightarrow>
   (\<exists>pre post. ops = pre @ OpAdd x # post \<and> OpRemove x \<notin> set post) \<or>
   (p \<and> OpRemove x \<notin> set ops)"
proof (induction x p ops rule: net_effect.induct)
  case (1 x p)
  then show ?case by simp
next
  case (2 x p y ops)
  show ?case
  proof (cases "y = x")
    case True
    have "(\<exists>pre post. OpAdd x # ops = pre @ OpAdd x # post \<and> OpRemove x \<notin> set post) \<or>
          (p \<and> OpRemove x \<notin> set (OpAdd x # ops)) \<longleftrightarrow>
          (\<exists>pre post. ops = pre @ OpAdd x # post \<and> OpRemove x \<notin> set post) \<or>
          OpRemove x \<notin> set ops"
      by (auto simp: Cons_eq_append_conv)
    then show ?thesis using 2 True by simp
  next
    case False
    have "(\<exists>pre post. OpAdd y # ops = pre @ OpAdd x # post \<and> OpRemove x \<notin> set post) \<longleftrightarrow>
          (\<exists>pre post. ops = pre @ OpAdd x # post \<and> OpRemove x \<notin> set post)"
      using False by (auto simp: Cons_eq_append_conv)
    then show ?thesis using 2 False by simp
  qed
next
  case (3 x p y ops)
  have "(\<exists>pre post. OpRemove y # ops = pre @ OpAdd x # post \<and> OpRemove x \<notin> set post) \<longleftrightarrow>
        (\<exists>pre post. ops = pre @ OpAdd x # post \<and> OpRemove x \<notin> set post)"
    by (auto simp: Cons_eq_append_conv)
  then show ?case using 3 by auto
next
  case (4 x p y ops)
  have "(\<exists>pre post. OpContains y # ops = pre @ OpAdd x # post \<and> OpRemove x \<notin> set post) \<longleftrightarrow>
        (\<exists>pre post. ops = pre @ OpAdd x # post \<and> OpRemove x \<notin> set post)"
    by (auto simp: Cons_eq_append_conv)
  then show ?case using 4 by simp
qed

lemma net_present_iff:
  "net_present x ops \<longleftrightarrow>
   (\<exists>pre post. ops = pre @ OpAdd x # post \<and> OpRemove x \<notin> set post)"
  by (simp add: net_present_def net_effect_iff)

text \<open>A short run, evaluated: the hash is the identity on natural numbers.\<close>

lemma example_run:
  "session (\<lambda>n::nat. n) 2 [OpAdd 3, OpAdd 4, OpRemove 3, OpAdd 7, OpRemove 9] =
   Inr \<lparr>set_size = 2, table = [[4], [7]]\<rparr>"
  by code_simp

lemma example_run_to_empty:
  "session (\<lambda>n::nat. n) 2 [OpAdd 3, OpAdd 4, OpRemove 3, OpRemove 4] =
   Inr \<lparr>set_size = 0, table = [[], []]\<rparr>"
  by code_simp

text \<open>
  Claim C1. From a fresh set with a positive number of buckets, every sequence of
  \<open>Add\<close>, \<open>Remove\<close> and \<open>Contains\<close> calls on one thread runs to the end, and then
  \<open>Contains x\<close> returns \<open>True\<close> exactly when the net effect of the sequence leaves \<open>x\<close>
  in the set: \<open>x\<close> has been added and not removed since its last addition.
\<close>

theorem membership_correct:
  assumes "0 < c"
  shows "(\<exists>s. session h c ops = Inr s \<and> Contains h s x = Inr (net_present x ops)) \<and>
         net_present x ops =
           (\<exists>pre post. ops = pre @ OpAdd x # post \<and> OpRemove x \<notin> set post)"
proof -
  let ?s0 = "\<lparr>set_size = 0, table = replicate c []\<rparr> :: 'a hash_set"
  have pos0: "0 < length (table ?s0)" using assms by simp
  have pl0: "placed h (table ?s0)" by (simp add: placed_replicate)
  obtain s where s: "run h ?s0 ops = Inr s" "placed h (table s)"
    "length (table ?s0) \<le> length (table s)"
    "(x \<in> set (concat (table s))) = net_effect x (x \<in> set (concat (table ?s0))) ops"
    using run_placed [OF pos0 pl0, of ops x] by blast
  have pos: "0 < length (table s)" using s(3) assms by auto
  have "Contains h s x = Inr (net_present x ops)"
    using Contains'_placed [OF pos s(2), of x] s(4)
    by (simp add: Contains_def net_present_def del: set_concat)
  then have "\<exists>s. session h c ops = Inr s \<and> Contains h s x = Inr (net_present x ops)"
    using s(1) by (simp add: session_run)
  then show ?thesis
    using net_present_iff [of x ops] by blast
qed

theorem membership_correct_witness:
  "(0::nat) < 2 \<and>
   session (\<lambda>n::nat. n) 2 [OpAdd 3, OpAdd 4, OpRemove 3, OpAdd 7, OpRemove 9] =
     Inr \<lparr>set_size = 2, table = [[4], [7]]\<rparr> \<and>
   Contains (\<lambda>n::nat. n) \<lparr>set_size = 2, table = [[4], [7]]\<rparr> 3 = Inr False \<and>
   Contains (\<lambda>n::nat. n) \<lparr>set_size = 2, table = [[4], [7]]\<rparr> 7 = Inr True \<and>
   \<not> net_present 3 [OpAdd 3, OpAdd 4, OpRemove 3, OpAdd 7, OpRemove (9::nat)] \<and>
   net_present 7 [OpAdd 3, OpAdd 4, OpRemove 3, OpAdd 7, OpRemove (9::nat)]"
proof -
  have h: "(0::nat) < 2" by simp
  have n3: "\<not> net_present 3 [OpAdd 3, OpAdd 4, OpRemove 3, OpAdd 7, OpRemove (9::nat)]"
    by (simp add: net_present_def)
  have n7: "net_present 7 [OpAdd 3, OpAdd 4, OpRemove 3, OpAdd 7, OpRemove (9::nat)]"
    by (simp add: net_present_def)
  have "Contains (\<lambda>n::nat. n) \<lparr>set_size = 2, table = [[4], [7]]\<rparr> 3 = Inr False"
    using membership_correct [OF h, of "\<lambda>n::nat. n"
        "[OpAdd 3, OpAdd 4, OpRemove 3, OpAdd 7, OpRemove 9]" 3] n3
    by (simp add: example_run)
  moreover have "Contains (\<lambda>n::nat. n) \<lparr>set_size = 2, table = [[4], [7]]\<rparr> 7 = Inr True"
    using membership_correct [OF h, of "\<lambda>n::nat. n"
        "[OpAdd 3, OpAdd 4, OpRemove 3, OpAdd 7, OpRemove 9]" 7] n7
    by (simp add: example_run)
  ultimately show ?thesis
    using h n3 n7 example_run by simp
qed

lemma unat_succ_64:
  "unat w < 2 ^ 64 - 1 \<Longrightarrow> unat ((w :: 64 word) + 1) = Suc (unat w)"
  using unat_add_lem [of w 1] by simp

lemma step_Add_counted:
  assumes pos: "0 < length (table s)" and pl: "placed h (table s)"
    and d: "distinct (concat (table s))"
    and cnt: "unat (set_size s) = length (concat (table s))"
    and bound: "length (concat (table s)) < 2 ^ 64 - 1"
  shows "\<exists>s'. step h s (OpAdd x) = Inr s' \<and> distinct (concat (table s')) \<and>
              unat (set_size s') = length (concat (table s')) \<and>
              length (concat (table s')) \<le> Suc (length (concat (table s)))"
proof (cases "x \<in> set (concat (table s))")
  case True
  then have "Add h s x = Inr (False, s)"
    using Contains'_placed [OF pos pl, of x] by (simp add: Add_present del: set_concat)
  then show ?thesis
    using d cnt by simp
next
  case False
  then have absent: "Contains' h s x = Inr False"
    using Contains'_placed [OF pos pl, of x] by (simp del: set_concat)
  let ?s2 = "inserted h s x"
  have i: "h x mod length (table s) < length (table s)"
    using pos by simp
  have d2: "distinct (concat (table ?s2))"
    using distinct_concat_append_at [OF d i False] by (simp add: table_inserted)
  have l2: "length (concat (table ?s2)) = Suc (length (concat (table s)))"
    using i by (simp add: table_inserted length_concat_append_at)
  have c2: "unat (set_size ?s2) = Suc (length (concat (table s)))"
    using cnt bound by (simp add: set_size_inserted unat_succ_64)
  show ?thesis
    using Add_absent [OF absent] d2 l2 c2
    by (simp add: distinct_Resize length_concat_Resize set_size_Resize)
qed

lemma step_Remove_counted:
  assumes pos: "0 < length (table s)" and pl: "placed h (table s)"
    and d: "distinct (concat (table s))"
    and cnt: "unat (set_size s) = length (concat (table s))"
  shows "\<exists>s'. step h s (OpRemove x) = Inr s' \<and> distinct (concat (table s')) \<and>
              unat (set_size s') = length (concat (table s')) \<and>
              length (concat (table s')) \<le> length (concat (table s))"
proof (cases "x \<in> set (table s ! (h x mod length (table s)))")
  case True
  let ?i = "h x mod length (table s)"
  let ?t' = "(table s)[?i := removeAll x (table s ! ?i)]"
  have i: "?i < length (table s)"
    using pos by simp
  have present: "Contains' h s x = Inr True"
    using True pos by (simp add: Contains'_Inr)
  have d': "distinct (concat ?t')"
    using d i by (rule distinct_concat_removeAll_at)
  have l': "Suc (length (concat ?t')) = length (concat (table s))"
    using d i True by (rule length_concat_removeAll_at)
  then have "set_size s \<noteq> 0"
    using cnt by (metis nat.distinct(1) unat_0)
  then have "unat (set_size s - 1) = length (concat ?t')"
    using cnt l' by (simp add: unat_minus_one)
  then show ?thesis
    using d' l' by (simp add: Remove_present [OF present])
next
  case False
  then have "Contains' h s x = Inr False"
    using pos by (simp add: Contains'_Inr)
  then show ?thesis
    using d cnt by (simp add: Remove_absent)
qed

lemma run_counted:
  assumes "0 < length (table s)" and "placed h (table s)"
    and "distinct (concat (table s))"
    and "unat (set_size s) = length (concat (table s))"
    and "length (concat (table s)) + length ops < 2 ^ 64"
  shows "\<exists>s'. run h s ops = Inr s' \<and> distinct (concat (table s')) \<and>
              unat (set_size s') = length (concat (table s'))"
  using assms
proof (induction ops arbitrary: s)
  case Nil
  then show ?case by simp
next
  case (Cons op ops)
  have "\<exists>s1. step h s op = Inr s1 \<and> 0 < length (table s1) \<and> placed h (table s1) \<and>
             distinct (concat (table s1)) \<and>
             unat (set_size s1) = length (concat (table s1)) \<and>
             length (concat (table s1)) \<le> Suc (length (concat (table s)))"
  proof (cases op)
    case (OpAdd y)
    have b: "length (concat (table s)) < 2 ^ 64 - 1"
      using Cons.prems(5) by simp
    show ?thesis
      using step_Add_placed [OF Cons.prems(1,2), of y]
        step_Add_counted [OF Cons.prems(1,2,3,4) b, of y] Cons.prems(1)
      unfolding OpAdd by (auto simp del: set_concat step.simps)
  next
    case (OpRemove y)
    show ?thesis
      using step_Remove_placed [OF Cons.prems(1,2), of y]
        step_Remove_counted [OF Cons.prems(1,2,3,4), of y] Cons.prems(1)
      unfolding OpRemove by (auto simp del: set_concat step.simps)
  next
    case (OpContains y)
    show ?thesis
      using step_Contains_placed [OF Cons.prems(1), of h y] Cons.prems
      unfolding OpContains by (simp del: set_concat step.simps)
  qed
  then obtain s1 where s1: "step h s op = Inr s1" "0 < length (table s1)" "placed h (table s1)"
    "distinct (concat (table s1))" "unat (set_size s1) = length (concat (table s1))"
    "length (concat (table s1)) \<le> Suc (length (concat (table s)))"
    by blast
  have "length (concat (table s1)) + length ops < 2 ^ 64"
    using s1(6) Cons.prems(5) by simp
  then show ?case
    using Cons.IH [OF s1(2,3,4,5)] s1(1) by (simp del: set_concat step.simps)
qed

section \<open>Invariants of the reachable states\<close>

text \<open>
  Claim C8. After every sequence of fewer than \<open>2 ^ 64\<close> operations on a fresh set
  with a positive number of buckets (the bound keeps the 64-bit counter from wrapping):
  no element occurs twice in the scan of the buckets, the counter equals the sum of the
  lengths of the buckets, and the number of buckets after the whole sequence is at least
  the number after any prefix of it, the empty prefix included, whatever was removed.
\<close>

theorem invariants_preserved:
  assumes "0 < c" and "length ops < 2 ^ 64"
  shows "\<exists>s. session h c ops = Inr s \<and>
             distinct (elements s) \<and>
             unat (Size s) = sum_list (map length (table s)) \<and>
             c \<le> capacity s \<and>
             (\<forall>ops1 ops2. ops = ops1 @ ops2 \<longrightarrow>
                (\<exists>s1. session h c ops1 = Inr s1 \<and> run h s1 ops2 = Inr s \<and>
                      capacity s1 \<le> capacity s))"
proof -
  let ?s0 = "\<lparr>set_size = 0, table = replicate c []\<rparr> :: 'a hash_set"
  have pos0: "0 < length (table ?s0)" using assms(1) by simp
  have pl0: "placed h (table ?s0)" by (simp add: placed_replicate)
  have d0: "distinct (concat (table ?s0))" by simp
  have c0: "unat (set_size ?s0) = length (concat (table ?s0))" by simp
  have b0: "length (concat (table ?s0)) + length ops < 2 ^ 64" using assms(2) by simp
  obtain s where s: "run h ?s0 ops = Inr s" "distinct (concat (table s))"
    "unat (set_size s) = length (concat (table s))"
    using run_counted [OF pos0 pl0 d0 c0 b0] by blast
  have cap: "c \<le> capacity s"
    using run_placed [OF pos0 pl0, of ops] s(1) by (simp add: capacity_def del: set_concat)
  have pre: "\<exists>s1. session h c ops1 = Inr s1 \<and> run h s1 ops2 = Inr s \<and> capacity s1 \<le> capacity s"
    if "ops = ops1 @ ops2" for ops1 ops2
  proof -
    obtain s1 where s1: "run h ?s0 ops1 = Inr s1" "placed h (table s1)"
      "length (table ?s0) \<le> length (table s1)"
      using run_placed [OF pos0 pl0, of ops1] by blast
    have pos1: "0 < length (table s1)" using s1(3) assms(1) by auto
    have r2: "run h s1 ops2 = Inr s"
      using s(1) s1(1) that by (simp add: run_append)
    then have "length (table s1) \<le> length (table s)"
      using run_placed [OF pos1 s1(2), of ops2] by (simp del: set_concat)
    then show ?thesis
      using s1(1) r2 by (simp add: session_run capacity_def)
  qed
  show ?thesis
    using s cap pre by (simp add: session_run elements_def Size_def length_concat)
qed

theorem invariants_preserved_witness:
  "(0::nat) < 2 \<and> length [OpAdd 3, OpAdd (4::nat), OpRemove 3, OpRemove 4] < 2 ^ 64 \<and>
   session (\<lambda>n::nat. n) 2 [OpAdd 3, OpAdd 4, OpRemove 3, OpRemove 4] =
     Inr \<lparr>set_size = 0, table = [[], []]\<rparr> \<and>
   distinct (elements \<lparr>set_size = 0, table = [[], [] :: nat list]\<rparr>) \<and>
   unat (Size \<lparr>set_size = 0, table = [[], [] :: nat list]\<rparr>) =
     sum_list (map length (table \<lparr>set_size = 0, table = [[], [] :: nat list]\<rparr>)) \<and>
   2 \<le> capacity \<lparr>set_size = 0, table = [[], [] :: nat list]\<rparr>"
proof -
  have h1: "(0::nat) < 2" by simp
  have h2: "length [OpAdd 3, OpAdd (4::nat), OpRemove 3, OpRemove 4] < 2 ^ 64" by simp
  show ?thesis
    using invariants_preserved [OF h1 h2, of "\<lambda>n::nat. n"] h1 h2
    unfolding example_run_to_empty by auto
qed

text \<open>
  Claim C7. \<open>Resize\<close> is a pure re-placement: on every state, the multiset of the
  elements in all buckets after it is the multiset before it, the number of buckets
  doubles, and every element of the new table sits in the bucket whose index is its hash
  modulo the new number of buckets. In every state reached from a fresh set with a
  positive number of buckets, every element of bucket \<open>i\<close> has hash \<open>i\<close> modulo the
  current number of buckets.
\<close>

theorem rehash_fidelity:
  "mset (elements (Resize h t)) = mset (elements t) \<and>
   capacity (Resize h t) = 2 * capacity t \<and>
   well_placed h (Resize h t) \<and>
   (0 < c \<longrightarrow>
      (\<exists>s. session h c ops = Inr s \<and> well_placed h s \<and>
           (\<forall>i<capacity s. \<forall>e\<in>set (table s ! i). h e mod capacity s = i) \<and>
           (\<forall>e\<in>set (elements s). e \<in> set (table s ! (h e mod capacity s)))))"
proof (intro conjI impI)
  show "mset (elements (Resize h t)) = mset (elements t)"
    by (simp add: elements_def mset_Resize)
  show "capacity (Resize h t) = 2 * capacity t"
    by (simp add: capacity_def length_table_Resize)
  show "well_placed h (Resize h t)"
    by (simp add: well_placed_def placed_Resize)
next
  assume c: "0 < c"
  let ?s0 = "\<lparr>set_size = 0, table = replicate c []\<rparr> :: 'a hash_set"
  have pos0: "0 < length (table ?s0)" using c by simp
  have pl0: "placed h (table ?s0)" by (simp add: placed_replicate)
  obtain s where s: "run h ?s0 ops = Inr s" "placed h (table s)"
    "length (table ?s0) \<le> length (table s)"
    using run_placed [OF pos0 pl0, of ops] by blast
  have pos: "0 < length (table s)" using s(3) c by auto
  have a: "\<forall>i<capacity s. \<forall>e\<in>set (table s ! i). h e mod capacity s = i"
    using s(2) by (simp add: placed_iff capacity_def)
  have b: "\<forall>e\<in>set (elements s). e \<in> set (table s ! (h e mod capacity s))"
    using placed_member [OF s(2) pos] by (simp add: elements_def capacity_def del: set_concat)
  show "\<exists>s. session h c ops = Inr s \<and> well_placed h s \<and>
           (\<forall>i<capacity s. \<forall>e\<in>set (table s ! i). h e mod capacity s = i) \<and>
           (\<forall>e\<in>set (elements s). e \<in> set (table s ! (h e mod capacity s)))"
    using s(1,2) a b by (simp add: session_run well_placed_def del: set_concat)
qed

theorem rehash_fidelity_witness:
  "(0::nat) < 2 \<and>
   session (\<lambda>n::nat. n) 2 [OpAdd 3, OpAdd 4, OpRemove 3, OpAdd 7, OpRemove 9] =
     Inr \<lparr>set_size = 2, table = [[4], [7]]\<rparr> \<and>
   well_placed (\<lambda>n::nat. n) \<lparr>set_size = 2, table = [[4], [7]]\<rparr> \<and>
   mset (elements (Resize (\<lambda>n::nat. n) \<lparr>set_size = 3, table = [[4, 2], [7]]\<rparr>)) =
     mset (elements \<lparr>set_size = 3, table = [[4, 2], [7 :: nat]]\<rparr>)"
proof -
  have h1: "(0::nat) < 2" by simp
  show ?thesis
    using rehash_fidelity [of "\<lambda>n::nat. n" "\<lparr>set_size = 3, table = [[4, 2], [7]]\<rparr>" 2
        "[OpAdd 3, OpAdd 4, OpRemove 3, OpAdd 7, OpRemove 9]"] h1
    unfolding example_run by auto
qed

section \<open>The literal scenario: capacity 4\<close>

lemma step_Add_quiet:
  assumes pos: "0 < length (table s)" and pl: "placed h (table s)"
    and d: "distinct (concat (table s))"
    and cnt: "unat (set_size s) = length (concat (table s))"
    and bound: "length (concat (table s)) < 2 ^ 64 - 1"
    and new: "x \<notin> set (concat (table s))"
    and quiet: "Suc (length (concat (table s))) div length (table s) \<le> 4"
  shows "step h s (OpAdd x) = Inr (inserted h s x)"
proof -
  have absent: "Contains' h s x = Inr False"
    using new Contains'_placed [OF pos pl, of x] by (simp del: set_concat)
  have "unat (set_size s + 1) = Suc (length (concat (table s)))"
    using cnt bound by (simp add: unat_succ_64)
  then show ?thesis
    using Add_absent [OF absent] quiet by (simp add: bucket_capacity_def)
qed

lemma inserted_counted:
  assumes pos: "0 < length (table s)" and pl: "placed h (table s)"
    and d: "distinct (concat (table s))"
    and cnt: "unat (set_size s) = length (concat (table s))"
    and bound: "length (concat (table s)) < 2 ^ 64 - 1"
    and new: "x \<notin> set (concat (table s))"
  shows "length (table (inserted h s x)) = length (table s) \<and>
         placed h (table (inserted h s x)) \<and>
         distinct (concat (table (inserted h s x))) \<and>
         unat (set_size (inserted h s x)) = length (concat (table (inserted h s x))) \<and>
         length (concat (table (inserted h s x))) = Suc (length (concat (table s))) \<and>
         set (concat (table (inserted h s x))) = insert x (set (concat (table s)))"
proof -
  have i: "h x mod length (table s) < length (table s)"
    using pos by simp
  have "distinct (concat (table (inserted h s x)))"
    using distinct_concat_append_at [OF d i new] by (simp add: table_inserted)
  moreover have "length (concat (table (inserted h s x))) = Suc (length (concat (table s)))"
    using i by (simp add: table_inserted length_concat_append_at)
  moreover have "unat (set_size (inserted h s x)) = Suc (length (concat (table s)))"
    using cnt bound by (simp add: set_size_inserted unat_succ_64)
  moreover have "set (concat (table (inserted h s x))) = insert x (set (concat (table s)))"
    using i by (simp add: table_inserted set_concat_append_at del: set_concat)
  ultimately show ?thesis
    using placed_inserted [OF pos pl, of x] by (simp add: length_table_inserted del: set_concat)
qed

lemma run_Add_quiet:
  assumes "0 < length (table s)" and "placed h (table s)"
    and "distinct (concat (table s))"
    and "unat (set_size s) = length (concat (table s))"
    and "length (concat (table s)) + length xs < 2 ^ 64"
    and "distinct xs" and "set xs \<inter> set (concat (table s)) = {}"
    and "(length (concat (table s)) + length xs) div length (table s) \<le> 4"
  shows "\<exists>s'. run h s (map OpAdd xs) = Inr s' \<and>
              length (table s') = length (table s) \<and>
              placed h (table s') \<and>
              distinct (concat (table s')) \<and>
              unat (set_size s') = length (concat (table s')) \<and>
              length (concat (table s')) = length (concat (table s)) + length xs \<and>
              set (concat (table s')) = set (concat (table s)) \<union> set xs"
  using assms
proof (induction xs arbitrary: s)
  case Nil
  then show ?case by simp
next
  case (Cons x xs)
  let ?s1 = "inserted h s x"
  have b: "length (concat (table s)) < 2 ^ 64 - 1"
    using Cons.prems(5) by simp
  have new: "x \<notin> set (concat (table s))"
    using Cons.prems(7) by (auto simp del: set_concat)
  have "Suc (length (concat (table s))) div length (table s) \<le>
        (length (concat (table s)) + length (x # xs)) div length (table s)"
    by (rule div_le_mono) simp
  then have q: "Suc (length (concat (table s))) div length (table s) \<le> 4"
    using Cons.prems(8) by linarith
  have st: "step h s (OpAdd x) = Inr ?s1"
    using step_Add_quiet [OF Cons.prems(1,2,3,4) b new q] .
  note f = inserted_counted [OF Cons.prems(1,2,3,4) b new]
  have p1: "0 < length (table ?s1)" using f Cons.prems(1) by simp
  have b1: "length (concat (table ?s1)) + length xs < 2 ^ 64"
    using f Cons.prems(5) by simp
  have dx: "distinct xs" using Cons.prems(6) by simp
  have dj: "set xs \<inter> set (concat (table ?s1)) = {}"
    using f Cons.prems(6,7) by (auto simp del: set_concat)
  have q1: "(length (concat (table ?s1)) + length xs) div length (table ?s1) \<le> 4"
    using f Cons.prems(8) by simp
  obtain s' where s': "run h ?s1 (map OpAdd xs) = Inr s'"
    "length (table s') = length (table ?s1)" "placed h (table s')"
    "distinct (concat (table s'))" "unat (set_size s') = length (concat (table s'))"
    "length (concat (table s')) = length (concat (table ?s1)) + length xs"
    "set (concat (table s')) = set (concat (table ?s1)) \<union> set xs"
    using Cons.IH [of ?s1] p1 f b1 dx dj q1 by blast
  show ?case
    using st s' f by (auto simp del: set_concat step.simps)
qed

lemma fresh_run_Add_quiet:
  assumes "0 < c" and "distinct xs" and "length xs div c \<le> 4" and "length xs < 2 ^ 64"
  shows "\<exists>s. session h c (map OpAdd xs) = Inr s \<and>
             length (table s) = c \<and> placed h (table s) \<and>
             distinct (concat (table s)) \<and>
             unat (set_size s) = length xs \<and>
             length (concat (table s)) = length xs \<and>
             set (concat (table s)) = set xs"
proof -
  let ?s0 = "\<lparr>set_size = 0, table = replicate c []\<rparr> :: 'a hash_set"
  have "\<exists>s'. run h ?s0 (map OpAdd xs) = Inr s' \<and>
              length (table s') = length (table ?s0) \<and>
              placed h (table s') \<and>
              distinct (concat (table s')) \<and>
              unat (set_size s') = length (concat (table s')) \<and>
              length (concat (table s')) = length (concat (table ?s0)) + length xs \<and>
              set (concat (table s')) = set (concat (table ?s0)) \<union> set xs"
    using assms by (intro run_Add_quiet) (simp_all add: placed_replicate)
  then show ?thesis
    by (auto simp: session_run simp del: set_concat)
qed

text \<open>
  The scenario evaluated with the hash that maps a non-negative integer to itself: 17
  elements in 4 buckets, and the first resize at the 20th element.
\<close>

lemma seventeen_evaluated:
  "session (\<lambda>i. nat i) 4 (map (\<lambda>k. OpAdd (int k)) [0..<17]) =
   Inr \<lparr>set_size = 17, table = [[0, 4, 8, 12, 16], [1, 5, 9, 13], [2, 6, 10, 14], [3, 7, 11, 15]]\<rparr>"
  by code_simp

lemma twenty_evaluated:
  "session (\<lambda>i. nat i) 4 (map (\<lambda>k. OpAdd (int k)) [0..<20]) =
   Inr \<lparr>set_size = 20,
        table = [[0, 8, 16], [1, 9, 17], [2, 10, 18], [3, 11, 19],
                 [4, 12], [5, 13], [6, 14], [7, 15]]\<rparr>"
  by code_simp

text \<open>
  Claim C6. From a fresh set of 4 buckets, adding the distinct integers
  \<open>0, 1, \<dots>, n - 1\<close> in order, for every \<open>n\<close> up to 20 and every hash function: the
  run ends without error, the counter is \<open>n\<close>, every integer added is found by
  \<open>Contains\<close>, and the number of buckets is 8 if \<open>4 < n div 4\<close> and 4 otherwise. Up to 20
  elements that quotient exceeds 4 only at \<open>n = 20\<close>: after 16 and after 17 elements it
  is 4, so the 17th insertion fires no resize and the set still has 4 buckets.
\<close>

theorem literal_resize_scenario:
  assumes "n \<le> 20"
  shows "\<exists>s. session h 4 (map (\<lambda>k. OpAdd (int k)) [0..<n]) = Inr s \<and>
             capacity s = (if 4 < n div 4 then 8 else 4) \<and>
             (4 < n div 4) = (n = 20) \<and>
             unat (Size s) = n \<and>
             (\<forall>k<n. Contains h s (int k) = Inr True)"
proof (cases "n = 20")
  case False
  then have n: "n \<le> 19" using assms by simp
  let ?xs = "map int [0..<n]"
  have ops: "map (\<lambda>k. OpAdd (int k)) [0..<n] = map OpAdd ?xs"
    by simp
  have dx: "distinct ?xs"
    by (simp add: distinct_map inj_on_def)
  have q: "length ?xs div 4 \<le> 4" using n by simp
  have b: "length ?xs < 2 ^ 64" using n by simp
  obtain s where s: "session h 4 (map OpAdd ?xs) = Inr s" "length (table s) = 4"
    "placed h (table s)" "unat (set_size s) = length ?xs" "set (concat (table s)) = set ?xs"
    using fresh_run_Add_quiet [OF _ dx q b, of h] by auto
  have pos: "0 < length (table s)" using s(2) by simp
  have "Contains h s (int k) = Inr True" if "k < n" for k
    using Contains'_placed [OF pos s(3), of "int k"] s(5) that
    by (simp add: Contains_def del: set_concat)
  moreover have "\<not> 4 < n div 4" using n by simp
  ultimately show ?thesis
    using s(1,2,4) False unfolding ops by (simp add: capacity_def Size_def)
next
  case True
  let ?xs = "map int [0..<19]"
  have ops: "map (\<lambda>k. OpAdd (int k)) [0..<n] = map OpAdd ?xs @ [OpAdd 19]"
  proof -
    have "[0..<20] = [0..<19] @ [19::nat]"
      using upt_Suc_append [of 0 19] by simp
    then show ?thesis
      unfolding True by simp
  qed
  have dx: "distinct ?xs"
    by (simp add: distinct_map inj_on_def)
  obtain s1 where s1: "session h 4 (map OpAdd ?xs) = Inr s1" "length (table s1) = 4"
    "placed h (table s1)" "distinct (concat (table s1))" "unat (set_size s1) = 19"
    "length (concat (table s1)) = 19" "set (concat (table s1)) = set ?xs"
    using fresh_run_Add_quiet [OF _ dx, of 4 h] by auto
  have pos1: "0 < length (table s1)" using s1(2) by simp
  have new: "19 \<notin> set (concat (table s1))"
    unfolding s1(7) by auto
  have absent: "Contains' h s1 19 = Inr False"
    using new Contains'_placed [OF pos1 s1(3), of 19] by (simp del: set_concat)
  have cnt: "unat (set_size s1) = length (concat (table s1))"
    using s1(5,6) by simp
  have bnd: "length (concat (table s1)) < 2 ^ 64 - 1"
    using s1(6) by simp
  note f = inserted_counted [OF pos1 s1(3,4) cnt bnd new]
  let ?s = "Resize h (inserted h s1 19)"
  have u: "unat (set_size s1 + 1) = 20"
    using s1(5) by (simp add: unat_succ_64)
  have add: "Add h s1 19 = Inr (True, ?s)"
    using Add_absent [OF absent] u s1(2) by (simp add: bucket_capacity_def)
  have run: "session h 4 (map (\<lambda>k. OpAdd (int k)) [0..<n]) = Inr ?s"
    using s1(1) add unfolding ops by (simp add: session_run run_append)
  have cap: "capacity ?s = 8"
    using f s1(2) by (simp add: capacity_def length_table_Resize)
  have size: "unat (Size ?s) = n"
    using f s1(6) True by (simp add: Size_def set_size_Resize)
  have pos2: "0 < length (table (inserted h s1 19))"
    using f s1(2) by simp
  have "Contains h ?s (int k) = Inr True" if "k < n" for k
  proof -
    have "int k \<in> insert 19 (set ?xs)"
      using that True by (cases "k = 19") auto
    then have "int k \<in> set (concat (table (inserted h s1 19)))"
      using f s1(7) by (simp del: set_concat)
    then show ?thesis
      using Contains'_Resize [OF pos2, of h "int k"] by (simp add: Contains_def del: set_concat)
  qed
  then show ?thesis
    using run cap size True by simp
qed

theorem literal_resize_scenario_witness:
  "(17::nat) \<le> 20 \<and>
   session (\<lambda>i. nat i) 4 (map (\<lambda>k. OpAdd (int k)) [0..<17]) =
     Inr \<lparr>set_size = 17,
          table = [[0, 4, 8, 12, 16], [1, 5, 9, 13], [2, 6, 10, 14], [3, 7, 11, 15]]\<rparr> \<and>
   capacity \<lparr>set_size = 17,
      table = [[0, 4, 8, 12, 16], [1, 5, 9, 13], [2, 6, 10, 14], [3, 7, 11, 15 :: int]]\<rparr> = 4 \<and>
   Contains (\<lambda>i. nat i) \<lparr>set_size = 17,
      table = [[0, 4, 8, 12, 16], [1, 5, 9, 13], [2, 6, 10, 14], [3, 7, 11, 15]]\<rparr> 0 = Inr True \<and>
   Contains (\<lambda>i. nat i) \<lparr>set_size = 17,
      table = [[0, 4, 8, 12, 16], [1, 5, 9, 13], [2, 6, 10, 14], [3, 7, 11, 15]]\<rparr> 16 = Inr True"
proof -
  have h: "(17::nat) \<le> 20" by simp
  obtain s where s: "session (\<lambda>i. nat i) 4 (map (\<lambda>k. OpAdd (int k)) [0..<17]) = Inr s"
    "capacity s = (if 4 < (17::nat) div 4 then 8 else 4)"
    "\<forall>k<17. Contains (\<lambda>i. nat i) s (int k) = Inr True"
    using literal_resize_scenario [OF h, of "\<lambda>i. nat i"] by blast
  have "Contains (\<lambda>i. nat i) s (int 0) = Inr True" "Contains (\<lambda>i. nat i) s (int 16) = Inr True"
    using s(3) [rule_format, of 0] s(3) [rule_format, of 16] by simp_all
  then show ?thesis
    using s(1,2) unfolding seventeen_evaluated by auto
qed

section \<open>Resize when an allocation fails\<close>








text \<open>
  An empty bucket and a bucket with one element: three requests before \<^verbatim>\<open>clear()\<close>
  and two in the copy assignment.
\<close>

lemma Resize_alloc_one_evaluated:
  "Resize_alloc (\<lambda>n::nat. n) doubling 2 \<lparr>set_size = 1, table = [[], [1]]\<rparr> =
     (Some BadAlloc, \<lparr>set_size = 1, table = [[], [1]]\<rparr>)"
  "Resize_alloc (\<lambda>n::nat. n) doubling 4 \<lparr>set_size = 1, table = [[], [1]]\<rparr> =
     (Some BadAlloc, \<lparr>set_size = 1, table = []\<rparr>)"
  "Resize_alloc (\<lambda>n::nat. n) doubling 5 \<lparr>set_size = 1, table = [[], [1]]\<rparr> =
     (None, \<lparr>set_size = 1, table = [[], [1], [], []]\<rparr>)"
  by code_simp+

text \<open>The state of the first example is the one in which \<open>Add\<close> calls \<open>Resize\<close>.\<close>

lemma Resize_alloc_five_reached:
  "session (\<lambda>n::nat. n) 1 [OpAdd 0, OpAdd 2, OpAdd 4, OpAdd 6] =
     Inr \<lparr>set_size = 4, table = [[0, 2, 4, 6]]\<rparr>"
  "inserted (\<lambda>n::nat. n) \<lparr>set_size = 4, table = [[0, 2, 4, 6]]\<rparr> 8 =
     \<lparr>set_size = 5, table = [[0, 2, 4, 6, 8]]\<rparr>"
  "Policy \<lparr>set_size = 5, table = [[0, 2, 4, 6, 8 :: nat]]\<rparr> = Inr True"
  by code_simp+




end
